theory Spec2Isabelle
  imports Complex_Main "HOL-Library.Log_Nat"
begin

section \<open>Animated backlight brightness: the timed range and the device handle\<close>

text \<open>
  The program is one Python module, \<^verbatim>\<open>brightness.py\<close>: the generator
  \<^verbatim>\<open>timed_range\<close>, the class \<^verbatim>\<open>AcpiBrightnessControl\<close> with its
  \<^verbatim>\<open>brightness\<close> property and \<^verbatim>\<open>animate\<close>, and \<^verbatim>\<open>main\<close>.

  Numbers, at two levels of detail. The first level takes Python's numbers as exact:
  \<^verbatim>\<open>float\<close> and \<^verbatim>\<open>int\<close> values are reals and integers, and every operation
  gives the exact result. It settles what rounding does not decide: which clock sample a
  value comes from, when the generator ends, what is written to the device and what is
  refused. The second level rounds every float operation to a double, gives the setter
  the floats that are not numbers, and keeps the brightness file as the text it holds. It
  settles the claims that rounding or the text decide. Overflow to infinity and underflow
  are outside both levels.

  The clock. \<^verbatim>\<open>datetime.now()\<close> is the program's only input besides its arguments and
  the device. It is modelled as a sequence of samples in seconds: \<open>clock k\<close> is what the
  \<open>k\<close>-th call of \<^verbatim>\<open>datetime.now()\<close> returns, and every function that reads the
  clock takes the number of calls made so far and returns the new count. Nothing is
  assumed about the samples; a theorem that needs them to advance says so.
\<close>

type_synonym clock = "nat \<Rightarrow> real"

datatype error = ZeroDivisionError | ValueError | OverflowError

subsection \<open>\<^verbatim>\<open>timed_range\<close>\<close>

text \<open>
  A Python generator runs only when its consumer calls \<^verbatim>\<open>next\<close>: the call
  \<^verbatim>\<open>timed_range(start, stop, duration, easing_func)\<close> runs none of the body and
  returns a generator object (\<open>Created\<close>); each \<^verbatim>\<open>next\<close> runs the body up to the
  following \<^verbatim>\<open>yield\<close>, where the frame is suspended with its local variables
  (\<open>Suspended start duration easing_func t_start y_span t_scaled\<close>: the locals that are
  read again after the \<^verbatim>\<open>yield\<close>), or up to the end of the body
  (\<open>Finished\<close>).
\<close>

datatype generator =
    Created real real real "real \<Rightarrow> real"
  | Suspended real real "real \<Rightarrow> real" real real real
  | Finished

datatype step = Yield real | StopIteration | Raise error

definition timed_range :: "real \<Rightarrow> real \<Rightarrow> real \<Rightarrow> (real \<Rightarrow> real) \<Rightarrow> generator" where
  "timed_range start stop duration easing_func = Created start stop duration easing_func"

text \<open>The default of the parameter \<^verbatim>\<open>easing_func\<close>: \<^verbatim>\<open>lambda t: t\<close>.\<close>

definition default_easing_func :: "real \<Rightarrow> real" where
  "default_easing_func t = t"

text \<open>
  The loop, entered at its condition: from the statements before it on the first
  \<^verbatim>\<open>next\<close>, from the \<^verbatim>\<open>yield\<close> on every later one.
  \<^verbatim>\<open>
    while t_scaled < 1:
        i = easing_func(t_scaled) * y_span + start
        t = (datetime.now() - t_start).total_seconds()
        t_scaled = 1 - (duration - t) / duration
        yield i
  \<close>
  The division cannot fail here: the same division by \<^verbatim>\<open>duration\<close> has succeeded
  before the loop.
\<close>

definition while_loop ::
  "clock \<Rightarrow> nat \<Rightarrow> real \<Rightarrow> real \<Rightarrow> (real \<Rightarrow> real) \<Rightarrow> real \<Rightarrow> real \<Rightarrow> real
    \<Rightarrow> step \<times> generator \<times> nat" where
  "while_loop clock n start duration easing_func t_start y_span t_scaled =
     (if t_scaled < 1 then
        let i = easing_func t_scaled * y_span + start;
            t = clock n - t_start;
            t_scaled' = 1 - (duration - t) / duration
        in (Yield i, Suspended start duration easing_func t_start y_span t_scaled', Suc n)
      else (StopIteration, Finished, n))"

text \<open>
  \<^verbatim>\<open>next(g)\<close>. On a fresh generator the body starts:
  \<^verbatim>\<open>
    t_start = datetime.now()
    y_span = stop - start
    t = (datetime.now() - t_start).total_seconds()
    t_scaled = 1 - (duration - t) / duration
    i = easing_func(t_scaled) * y_span + start
  \<close>
  The division raises \<^verbatim>\<open>ZeroDivisionError\<close> when \<^verbatim>\<open>duration\<close> is zero. The last
  assignment is overwritten before \<^verbatim>\<open>i\<close> is read; the easing function is taken to
  be a pure, total function, so the call leaves no trace. A generator that has raised or
  returned is finished, and \<^verbatim>\<open>next\<close> on it raises \<^verbatim>\<open>StopIteration\<close>.
\<close>

fun timed_range_next :: "clock \<Rightarrow> generator \<Rightarrow> nat \<Rightarrow> step \<times> generator \<times> nat" where
  "timed_range_next clock (Created start stop duration easing_func) n =
     (let t_start = clock n;
          y_span = stop - start;
          t = clock (Suc n) - t_start
      in if duration = 0 then (Raise ZeroDivisionError, Finished, Suc (Suc n))
         else
           let t_scaled = 1 - (duration - t) / duration
           in while_loop clock (Suc (Suc n)) start duration easing_func t_start y_span t_scaled)"
| "timed_range_next clock (Suspended start duration easing_func t_start y_span t_scaled) n =
     while_loop clock n start duration easing_func t_start y_span t_scaled"
| "timed_range_next clock Finished n = (StopIteration, Finished, n)"

text \<open>
  A consumer that calls \<^verbatim>\<open>next\<close> at most \<open>m\<close> times, as
  \<^verbatim>\<open>itertools.islice(g, m)\<close> does: the values it receives, how it ended, and
  the number of clock samples taken by then. It is \<open>Pending\<close> when it has been given
  \<open>m\<close> values and asks no more, \<open>Exhausted\<close> when the generator returned,
  \<open>Failed e\<close> when the generator raised \<open>e\<close>.
\<close>

datatype status = Pending | Exhausted | Failed error

fun first_yields :: "clock \<Rightarrow> nat \<Rightarrow> generator \<Rightarrow> nat \<Rightarrow> real list \<times> status \<times> nat" where
  "first_yields clock 0 g n = ([], Pending, n)"
| "first_yields clock (Suc m) g n =
     (case timed_range_next clock g n of
        (Yield i, g', n') \<Rightarrow> (case first_yields clock m g' n' of (ys, r) \<Rightarrow> (i # ys, r))
      | (StopIteration, g', n') \<Rightarrow> ([], Exhausted, n')
      | (Raise e, g', n') \<Rightarrow> ([], Failed e, n'))"

text \<open>
  The progress that the generator computes from the \<open>k\<close>-th clock sample: the
  expression \<^verbatim>\<open>1 - (duration - t) / duration\<close> at
  \<^verbatim>\<open>t = (datetime.now() - t_start).total_seconds()\<close>, for stating what was computed
  from which sample.
\<close>

definition progress :: "clock \<Rightarrow> real \<Rightarrow> real \<Rightarrow> nat \<Rightarrow> real" where
  "progress clock t_start duration k = 1 - (duration - (clock k - t_start)) / duration"

subsection \<open>\<^verbatim>\<open>AcpiBrightnessControl\<close>\<close>

text \<open>
  An open handle: the cached \<^verbatim>\<open>_max\<close> and the open file \<^verbatim>\<open>brightness_file\<close>.
  The file is a sysfs attribute: a write of decimal text replaces the device's value and a
  read from offset zero returns it, so the file is modelled by the integer it holds (the
  text forms \<^verbatim>\<open>str(n)\<close> and \<^verbatim>\<open>int(s.strip())\<close> are not modelled, nor is
  the buffering of the file object, which \<^verbatim>\<open>seek\<close> and \<^verbatim>\<open>close\<close> flush).
  \<open>written\<close> is the trace of the values passed to \<^verbatim>\<open>brightness_file.write\<close>, oldest
  first; the program never reads it. The text of the file is kept at the second level,
  in \<open>file_control\<close> below.
\<close>

record control =
  max_brightness :: int
  brightness_file :: int
  written :: "int list"

text \<open>Python's \<^verbatim>\<open>int(x)\<close> on a number: truncation towards zero.\<close>

definition py_int :: "real \<Rightarrow> int" where
  "py_int x = (if 0 \<le> x then \<lfloor>x\<rfloor> else \<lceil>x\<rceil>)"

text \<open>The property \<^verbatim>\<open>brightness\<close>: its getter and its setter.\<close>

definition brightness :: "control \<Rightarrow> int" where
  "brightness self = brightness_file self"

definition brightness_setter :: "control \<Rightarrow> real \<Rightarrow> error + control" where
  "brightness_setter self new_brightness =
     (if new_brightness > real_of_int (max_brightness self) then Inl ValueError
      else Inr (self\<lparr>brightness_file := py_int new_brightness,
                     written := written self @ [py_int new_brightness]\<rparr>))"

text \<open>
  \<^verbatim>\<open>animate\<close>: the \<^verbatim>\<open>for\<close> loop drives the generator, one \<^verbatim>\<open>next\<close> for each
  turn, and assigns each value to \<^verbatim>\<open>self.brightness\<close>. An exception of the setter
  or of the generator leaves the loop and \<^verbatim>\<open>animate\<close>; the handle is then as the
  last completed assignment left it. \<^verbatim>\<open>time.sleep(0.001)\<close> only lets time pass,
  which the clock's samples stand for. The loop runs for as long as the generator yields,
  so the result is \<open>None\<close> when it never ends.
\<close>

datatype outcome = Returned | Raised error

partial_function (option) for_loop ::
  "clock \<Rightarrow> generator \<Rightarrow> nat \<Rightarrow> control \<Rightarrow> (outcome \<times> control) option" where
  "for_loop clock anim_range n self =
     (case timed_range_next clock anim_range n of
        (Yield i, g', n') \<Rightarrow>
          (case brightness_setter self i of
             Inl e \<Rightarrow> Some (Raised e, self)
           | Inr self' \<Rightarrow> for_loop clock g' n' self')
      | (StopIteration, g', n') \<Rightarrow> Some (Returned, self)
      | (Raise e, g', n') \<Rightarrow> Some (Raised e, self))"

declare for_loop.simps [code]

definition animate ::
  "clock \<Rightarrow> nat \<Rightarrow> control \<Rightarrow> real \<Rightarrow> real \<Rightarrow> (real \<Rightarrow> real) \<Rightarrow> (outcome \<times> control) option" where
  "animate clock n self new_brightness duration easing_func =
     (let anim_range =
            timed_range (real_of_int (brightness self)) new_brightness duration easing_func
      in for_loop clock anim_range n self)"

subsection \<open>\<^verbatim>\<open>main\<close>\<close>

text \<open>
  \<^verbatim>\<open>main\<close> after \<^verbatim>\<open>parser.parse_args()\<close>, inside
  \<^verbatim>\<open>with AcpiBrightnessControl() as control\<close>: it takes the open handle and the
  parsed arguments \<^verbatim>\<open>args.action\<close>, \<^verbatim>\<open>args.operand\<close>,
  \<^verbatim>\<open>args.duration\<close> and \<^verbatim>\<open>args.easing_function\<close>, each as a parameter
  of its own. \<^verbatim>\<open>argparse\<close> has checked that \<^verbatim>\<open>action\<close> is one of the five
  choices and has converted \<^verbatim>\<open>operand\<close>, which is \<^verbatim>\<open>None\<close> when absent. The
  module \<^verbatim>\<open>pytweening\<close> is not part of the program: the lookup
  \<^verbatim>\<open>hasattr\<close>/\<^verbatim>\<open>getattr\<close> is a parameter, a partial map from names to easing
  functions, and so is \<^verbatim>\<open>pytweening.easeOutCubic\<close>. What is printed is kept as a
  list of messages for each stream. The process ends normally, by \<^verbatim>\<open>sys.exit\<close>,
  or by an exception that nothing catches; \<open>device\<close> is the handle as the process
  leaves it.
\<close>

datatype message =
    Number int
  | RequiresOperand string
  | Usage
  | NoEasingFunction string

datatype exit = Normal | SystemExit int | Uncaught error

record process =
  exit :: exit
  stdout :: "message list"
  stderr :: "message list"
  device :: control

text \<open>\<^verbatim>\<open>not args.operand\<close>: true of \<^verbatim>\<open>None\<close> and of \<^verbatim>\<open>0\<close>.\<close>

definition not_operand :: "int option \<Rightarrow> bool" where
  "not_operand x = (case x of None \<Rightarrow> True | Some v \<Rightarrow> v = 0)"

definition main ::
  "(string \<Rightarrow> (real \<Rightarrow> real) option) \<Rightarrow> (real \<Rightarrow> real) \<Rightarrow> clock
    \<Rightarrow> string \<Rightarrow> int option \<Rightarrow> real \<Rightarrow> string \<Rightarrow> control \<Rightarrow> process option" where
  "main pytweening easeOutCubic clock action operand duration easing_function control =
     (if action = ''show'' then
        Some \<lparr>exit = Normal, stdout = [Number (brightness control)], stderr = [],
              device = control\<rparr>
      else if action = ''max'' then
        Some \<lparr>exit = Normal, stdout = [Number (max_brightness control)], stderr = [],
              device = control\<rparr>
      else if not_operand operand then
        Some \<lparr>exit = SystemExit 1, stdout = [],
              stderr = [RequiresOperand action, Usage], device = control\<rparr>
      else
        let (easing_func, printed) =
              (case pytweening easing_function of
                 Some f \<Rightarrow> (f, [])
               | None \<Rightarrow> (easeOutCubic, [NoEasingFunction easing_function]));
            new_brightness = brightness control;
            new_brightness =
              (case operand of
                 None \<Rightarrow> new_brightness
               | Some v \<Rightarrow>
                   if action = ''set'' then v
                   else if action = ''inc'' then new_brightness + v
                   else if action = ''dec'' then new_brightness - v
                   else new_brightness)
        in case animate clock 0 control (real_of_int new_brightness) duration easing_func of
             None \<Rightarrow> None
           | Some (Returned, control') \<Rightarrow>
               Some \<lparr>exit = Normal, stdout = printed, stderr = [], device = control'\<rparr>
           | Some (Raised e, control') \<Rightarrow>
               Some \<lparr>exit = Uncaught e, stdout = printed, stderr = [], device = control'\<rparr>)"

subsection \<open>Float arithmetic\<close>

text \<open>
  A Python \<^verbatim>\<open>float\<close> is a double: zero, or a real \<open>m * 2 ^ e\<close> with an integer
  \<open>m\<close> of 53 bits. An arithmetic operation on floats, and the conversion of an
  \<^verbatim>\<open>int\<close> to a float, give the exact result rounded to the nearest double, a tie
  going to the double whose \<open>m\<close> is even. \<open>exponent x\<close> is the integer \<open>e\<close> with
  \<open>2 ^ e \<le> \<bar>x\<bar> < 2 ^ (e + 1)\<close>, found from the bit length of the integer part of
  \<open>\<bar>x\<bar>\<close> or of its inverse; \<open>ulp x\<close> is the distance between the doubles around
  \<open>x\<close>. The exponent is not bounded.
\<close>

definition exponent :: "real \<Rightarrow> int" where
  "exponent x =
     (let a = \<bar>x\<bar> in
      if 1 \<le> a then bitlen \<lfloor>a\<rfloor> - 1
      else let b = bitlen \<lfloor>1 / a\<rfloor> in if a * 2 ^ nat (b - 1) = 1 then 1 - b else - b)"

definition round_half_even :: "real \<Rightarrow> int" where
  "round_half_even x =
     (let n = \<lfloor>x\<rfloor>; r = x - of_int n in
      if r < 1 / 2 then n else if 1 / 2 < r then n + 1 else if even n then n else n + 1)"

definition ulp :: "real \<Rightarrow> real" where
  "ulp x = 2 powi (exponent x - 52)"

definition double :: "real \<Rightarrow> real" where
  "double x = (if x = 0 then 0 else of_int (round_half_even (x / ulp x)) * ulp x)"

subsection \<open>\<^verbatim>\<open>timed_range\<close> in float arithmetic\<close>

text \<open>
  The generator again, with every operation rounded as Python rounds it.
  \<^verbatim>\<open>total_seconds()\<close> is the exact difference of two clock samples, rounded;
  \<^verbatim>\<open>duration\<close>, \<^verbatim>\<open>y_span\<close> and \<^verbatim>\<open>start\<close> are converted to floats where
  they meet a float, which changes nothing when they are floats already; the easing
  function returns a float. \<^verbatim>\<open>start\<close> and \<^verbatim>\<open>stop\<close> are both
  \<^verbatim>\<open>int\<close> or both \<^verbatim>\<open>float\<close>, so that \<^verbatim>\<open>y_span\<close>, where it meets a float,
  is their exact difference rounded. The generator object, its states and the consumer are
  those of the exact level.
\<close>

definition while_loop_float ::
  "clock \<Rightarrow> nat \<Rightarrow> real \<Rightarrow> real \<Rightarrow> (real \<Rightarrow> real) \<Rightarrow> real \<Rightarrow> real \<Rightarrow> real
    \<Rightarrow> step \<times> generator \<times> nat" where
  "while_loop_float clock n start duration easing_func t_start y_span t_scaled =
     (if t_scaled < 1 then
        let i = double (double (double (easing_func t_scaled) * double y_span) + double start);
            t = double (clock n - t_start);
            t_scaled' = double (1 - double (double (double duration - t) / double duration))
        in (Yield i, Suspended start duration easing_func t_start y_span t_scaled', Suc n)
      else (StopIteration, Finished, n))"

fun timed_range_next_float :: "clock \<Rightarrow> generator \<Rightarrow> nat \<Rightarrow> step \<times> generator \<times> nat" where
  "timed_range_next_float clock (Created start stop duration easing_func) n =
     (let t_start = clock n;
          y_span = stop - start;
          t = double (clock (Suc n) - t_start)
      in if double duration = 0 then (Raise ZeroDivisionError, Finished, Suc (Suc n))
         else
           let t_scaled = double (1 - double (double (double duration - t) / double duration))
           in while_loop_float clock (Suc (Suc n)) start duration easing_func t_start y_span
                t_scaled)"
| "timed_range_next_float clock (Suspended start duration easing_func t_start y_span t_scaled) n =
     while_loop_float clock n start duration easing_func t_start y_span t_scaled"
| "timed_range_next_float clock Finished n = (StopIteration, Finished, n)"

fun first_yields_float ::
  "clock \<Rightarrow> nat \<Rightarrow> generator \<Rightarrow> nat \<Rightarrow> real list \<times> status \<times> nat" where
  "first_yields_float clock 0 g n = ([], Pending, n)"
| "first_yields_float clock (Suc m) g n =
     (case timed_range_next_float clock g n of
        (Yield i, g', n') \<Rightarrow>
          (case first_yields_float clock m g' n' of (ys, r) \<Rightarrow> (i # ys, r))
      | (StopIteration, g', n') \<Rightarrow> ([], Exhausted, n')
      | (Raise e, g', n') \<Rightarrow> ([], Failed e, n'))"

text \<open>The progress that the generator computes in floats from the \<open>k\<close>-th clock sample.\<close>

definition progress_float :: "clock \<Rightarrow> real \<Rightarrow> real \<Rightarrow> nat \<Rightarrow> real" where
  "progress_float clock t_start duration k =
     double (1 - double (double (double duration - double (clock k - t_start)) / double duration))"

subsection \<open>The property \<^verbatim>\<open>brightness\<close> on the text of the file\<close>

text \<open>
  What the first level leaves out of the setter and the getter.

  The value assigned is any Python number: an \<^verbatim>\<open>int\<close> or a finite \<^verbatim>\<open>float\<close>
  (\<open>Finite x\<close>, the real it denotes), or one of the floats \<^verbatim>\<open>nan\<close>, \<^verbatim>\<open>inf\<close>
  and \<^verbatim>\<open>-inf\<close>. \<^verbatim>\<open>new_brightness > self.max\<close> compares it with the integer
  \<^verbatim>\<open>max\<close> exactly and is false of \<^verbatim>\<open>nan\<close>; \<^verbatim>\<open>int(new_brightness)\<close>
  truncates a finite number and raises \<^verbatim>\<open>ValueError\<close> on \<^verbatim>\<open>nan\<close>,
  \<^verbatim>\<open>OverflowError\<close> on an infinity.
\<close>

datatype number = Finite real | NaN | PosInf | NegInf

definition greater_than :: "number \<Rightarrow> int \<Rightarrow> bool" where
  "greater_than v m =
     (case v of Finite x \<Rightarrow> real_of_int m < x | NaN \<Rightarrow> False | PosInf \<Rightarrow> True | NegInf \<Rightarrow> False)"

definition int_of_number :: "number \<Rightarrow> error + int" where
  "int_of_number v =
     (case v of
        Finite x \<Rightarrow> Inr (py_int x)
      | NaN \<Rightarrow> Inl ValueError
      | PosInf \<Rightarrow> Inl OverflowError
      | NegInf \<Rightarrow> Inl OverflowError)"

text \<open>
  \<^verbatim>\<open>str(k)\<close> of an integer: its decimal digits, after a minus sign when it is
  negative. Python refuses to convert an integer of more than 4300 digits; \<open>str\<close> has
  no such limit, and the theorems that depend on it keep to integers below \<open>10 ^ 4300\<close>.
\<close>

definition digit_char :: "nat \<Rightarrow> char" where
  "digit_char d = ''0123456789'' ! d"

fun digits :: "nat \<Rightarrow> string" where
  "digits n = (if n < 10 then [digit_char n] else digits (n div 10) @ [digit_char (n mod 10)])"

declare digits.simps [simp del]

definition str :: "int \<Rightarrow> string" where
  "str k = (if k < 0 then CHR ''-'' # digits (nat (- k)) else digits (nat k))"

text \<open>
  \<^verbatim>\<open>s.strip()\<close> removes the whitespace at both ends; \<^verbatim>\<open>int(s)\<close> reads an optional
  sign and then decimal digits, which single underscores may separate, and raises
  \<^verbatim>\<open>ValueError\<close> on any other text. The text is ASCII: its whitespace characters
  are the codes 9 to 13 and 28 to 32.
\<close>

definition is_space :: "char \<Rightarrow> bool" where
  "is_space c = (let k = of_char c :: nat in (9 \<le> k \<and> k \<le> 13) \<or> (28 \<le> k \<and> k \<le> 32))"

definition strip :: "string \<Rightarrow> string" where
  "strip s = rev (dropWhile is_space (rev (dropWhile is_space s)))"

definition is_digit :: "char \<Rightarrow> bool" where
  "is_digit c = (let k = of_char c :: nat in 48 \<le> k \<and> k \<le> 57)"

definition digit_value :: "char \<Rightarrow> nat" where
  "digit_value c = of_char c - 48"

fun digits_ok :: "string \<Rightarrow> bool" where
  "digits_ok [] = False"
| "digits_ok [c] = is_digit c"
| "digits_ok (c # d # cs) =
     (is_digit c \<and> (if d = CHR ''_'' then digits_ok cs else digits_ok (d # cs)))"

definition digits_value :: "string \<Rightarrow> nat" where
  "digits_value s = foldl (\<lambda>a c. 10 * a + digit_value c) 0 (filter (\<lambda>c. c \<noteq> CHR ''_'') s)"

definition int_of_str :: "string \<Rightarrow> error + int" where
  "int_of_str s =
     (let t = strip s;
          (negative, body) =
            (case t of
               [] \<Rightarrow> (False, [])
             | c # cs \<Rightarrow>
                 if c = CHR ''-'' then (True, cs)
                 else if c = CHR ''+'' then (False, cs)
                 else (False, t))
      in if digits_ok body
         then Inr (if negative then - int (digits_value body) else int (digits_value body))
         else Inl ValueError)"

text \<open>
  The file is open in mode \<^verbatim>\<open>r+\<close>. \<^verbatim>\<open>seek(0)\<close> and \<^verbatim>\<open>write(text)\<close> put
  the text over the first characters of the file and leave what follows them: nothing
  truncates the file. \<^verbatim>\<open>seek(0)\<close> and \<^verbatim>\<open>read()\<close> return the whole text. This is
  what a regular file does; a device attribute may take each write as a whole value, which
  is the first level's reading.
\<close>

definition write_at_start :: "string \<Rightarrow> string \<Rightarrow> string" where
  "write_at_start s old = s @ drop (length s) old"

record file_control =
  cached_max :: int
  file_text :: string

definition brightness_setter_file :: "file_control \<Rightarrow> number \<Rightarrow> error + file_control" where
  "brightness_setter_file self new_brightness =
     (if greater_than new_brightness (cached_max self) then Inl ValueError
      else
        case int_of_number new_brightness of
          Inl e \<Rightarrow> Inl e
        | Inr k \<Rightarrow> Inr (self\<lparr>file_text := write_at_start (str k) (file_text self)\<rparr>))"

definition brightness_file_value :: "file_control \<Rightarrow> error + int" where
  "brightness_file_value self = int_of_str (file_text self)"

subsection \<open>Inputs for the examples\<close>

text \<open>A clock that advances by one second between two samples.\<close>

definition steady_clock :: clock where
  "steady_clock k = real k"

text \<open>A clock that is set back between its second and its third sample.\<close>

definition backward_clock :: clock where
  "backward_clock k = (if k = 0 then 0 else if k = 1 then 4 else 2)"

text \<open>A clock that advances by five seconds between two samples.\<close>

definition clock_every_five :: clock where
  "clock_every_five k = 5 * real k"

text \<open>An open handle of a device with maximum 100, at brightness 50.\<close>

definition handle50 :: control where
  "handle50 = \<lparr>max_brightness = 100, brightness_file = 50, written = []\<rparr>"

text \<open>The same handle on a file that holds the text of 50 and a newline.\<close>

definition file50 :: file_control where
  "file50 = \<lparr>cached_max = 100, file_text = [CHR ''5'', CHR ''0'', CHR 0x0A]\<rparr>"

section \<open>What the generator yields\<close>

text \<open>
  The samples a generator reads are consecutive, so the values it yields have a closed form:
  the elements of the sequence of progress values, one for each sample after the first,
  up to the first that is not below 1.
\<close>

lemma map_upt_shift:
  "map (\<lambda>j. g (n + j)) [0..<Suc m] = g n # map (\<lambda>j. g (Suc n + j)) [0..<m]"
proof -
  have "[0..<Suc m] = 0 # map Suc [0..<m]"
    by (simp add: upt_conv_Cons map_Suc_upt del: upt_Suc)
  then show ?thesis by (simp add: comp_def del: upt_Suc)
qed

lemma takeWhile_length_le:
  assumes "i < length xs" and "\<not> P (xs ! i)"
  shows "length (takeWhile P xs) \<le> i"
proof (rule ccontr)
  assume "\<not> length (takeWhile P xs) \<le> i"
  then have less: "i < length (takeWhile P xs)" by simp
  then have "takeWhile P xs ! i = xs ! i" by (rule takeWhile_nth)
  moreover have "takeWhile P xs ! i \<in> set (takeWhile P xs)" using less by simp
  ultimately have "P (xs ! i)" by (metis set_takeWhileD)
  with assms show False by simp
qed

lemma progress_step:
  "1 - (d - (clock k - t0)) / d = progress clock t0 d k"
  by (simp add: progress_def)

lemma progress_less_one: "0 < d \<Longrightarrow> (progress clock t0 d k < 1) = (clock k - t0 < d)"
  by (simp add: progress_def field_simps)

lemma first_yields_Suspended:
  "first_yields clock m (Suspended start d f t0 y_span (progress clock t0 d n)) (Suc n) =
     (map (\<lambda>t. f t * y_span + start)
        (takeWhile (\<lambda>t. t < 1) (map (\<lambda>j. progress clock t0 d (n + j)) [0..<m])),
      if length (takeWhile (\<lambda>t. t < 1) (map (\<lambda>j. progress clock t0 d (n + j)) [0..<m])) = m
      then Pending else Exhausted,
      Suc n + length (takeWhile (\<lambda>t. t < 1) (map (\<lambda>j. progress clock t0 d (n + j)) [0..<m])))"
proof (induction m arbitrary: n)
  case 0
  show ?case by simp
next
  case (Suc m)
  show ?case
  proof (cases "progress clock t0 d n < 1")
    case False
    then show ?thesis
      by (simp add: while_loop_def map_upt_shift del: upt_Suc)
  next
    case True
    then show ?thesis
      using Suc.IH [of "Suc n"]
      by (simp add: while_loop_def Let_def progress_step map_upt_shift del: upt_Suc)
  qed
qed

lemma first_yields_Created:
  assumes "d \<noteq> 0"
  shows "first_yields clock (Suc m) (timed_range start stop d f) n =
     (map (\<lambda>t. f t * (stop - start) + start)
        (takeWhile (\<lambda>t. t < 1) (map (\<lambda>j. progress clock (clock n) d (Suc n + j)) [0..<Suc m])),
      if length (takeWhile (\<lambda>t. t < 1)
           (map (\<lambda>j. progress clock (clock n) d (Suc n + j)) [0..<Suc m])) = Suc m
      then Pending else Exhausted,
      Suc (Suc n) + length (takeWhile (\<lambda>t. t < 1)
           (map (\<lambda>j. progress clock (clock n) d (Suc n + j)) [0..<Suc m])))"
proof -
  have "first_yields clock (Suc m) (timed_range start stop d f) n =
        first_yields clock (Suc m)
          (Suspended start d f (clock n) (stop - start) (progress clock (clock n) d (Suc n)))
          (Suc (Suc n))"
    using assms by (simp add: timed_range_def Let_def progress_step)
  then show ?thesis
    by (simp only: first_yields_Suspended)
qed

lemma first_yields_zero_duration:
  "first_yields clock (Suc m) (timed_range start stop 0 f) n =
     ([], Failed ZeroDivisionError, Suc (Suc n))"
  by (simp add: timed_range_def)

lemma first_yields_values:
  assumes "first_yields clock m (timed_range start stop d f) n = (ys, r, n')"
    and "j < length ys"
  shows "progress clock (clock n) d (Suc n + j) < 1
     \<and> ys ! j = f (progress clock (clock n) d (Suc n + j)) * (stop - start) + start
     \<and> n' = Suc (Suc n) + length ys"
proof -
  from assms obtain m' where m: "m = Suc m'" by (cases m) auto
  have d: "d \<noteq> 0"
  proof
    assume "d = 0"
    with assms m show False
      by (simp add: first_yields_zero_duration del: first_yields.simps)
  qed
  let ?xs = "map (\<lambda>j. progress clock (clock n) d (Suc n + j)) [0..<Suc m']"
  let ?ts = "takeWhile (\<lambda>t. t < 1) ?xs"
  from assms(1) have ys: "ys = map (\<lambda>t. f t * (stop - start) + start) ?ts"
    and n': "n' = Suc (Suc n) + length ?ts"
    unfolding m first_yields_Created [OF d] by simp_all
  from ys assms(2) have j: "j < length ?ts" by simp
  then have nth: "?ts ! j = ?xs ! j" by (rule takeWhile_nth)
  have "length ?ts \<le> length ?xs" by (rule length_takeWhile_le)
  with j have jm: "j < Suc m'" by simp
  have "?ts ! j \<in> set ?ts" using j by simp
  then have "?ts ! j < 1" by (metis set_takeWhileD)
  moreover have "?xs ! j = progress clock (clock n) d (Suc n + j)"
    using jm by (simp only: nth_map_upt) simp
  ultimately show ?thesis using nth ys j n' by simp
qed

lemma first_yields_status:
  "fst (snd (first_yields clock m (timed_range start stop d f) n)) = Failed e \<Longrightarrow> d = 0"
proof (cases m)
  case 0
  assume "fst (snd (first_yields clock m (timed_range start stop d f) n)) = Failed e"
  with 0 show ?thesis by simp
next
  case (Suc m')
  assume failed: "fst (snd (first_yields clock m (timed_range start stop d f) n)) = Failed e"
  show ?thesis
  proof (rule ccontr)
    assume "d \<noteq> 0"
    then show False
      using failed unfolding Suc first_yields_Created [OF \<open>d \<noteq> 0\<close>]
      by (simp split: if_splits)
  qed
qed

lemma sorted_map_mono:
  assumes "sorted xs" and "\<And>x y. x \<le> y \<Longrightarrow> h x \<le> h y"
  shows "sorted (map h xs)"
  using assms by (induction xs) auto

lemma sorted_rev_map_antimono:
  assumes "sorted xs" and "\<And>x y. x \<le> y \<Longrightarrow> h y \<le> h x"
  shows "sorted (rev (map h xs))"
  using assms by (induction xs) (auto simp: sorted_append)

text \<open>
  A run on the steady clock, from 0 to 100 in ten seconds.
\<close>

lemma steady_run:
  "first_yields steady_clock 3 (timed_range 0 100 10 default_easing_func) 0
      = ([10, 20, 30], Pending, 5)"
  by (simp add: numeral_3_eq_3 timed_range_def while_loop_def steady_clock_def
      default_easing_func_def Let_def)

section \<open>Float arithmetic\<close>

text \<open>
  The exponent brackets its argument between two powers of two; rounding is monotone,
  keeps zero, one and every double, among them the integers up to \<open>2 ^ 53\<close>, and
  commutes with a change of sign and with scaling by a power of two.
\<close>

lemma exponent_bounds_pos:
  assumes "0 < a"
  shows "2 powi (exponent a) \<le> a \<and> a < 2 powi (exponent a + 1)"
proof (cases "1 \<le> a")
  case True
  define k where "k = \<lfloor>a\<rfloor>"
  have k: "0 < k" using True by (simp add: k_def)
  have e: "exponent a = bitlen k - 1" using True assms by (simp add: exponent_def k_def)
  have b1: "1 \<le> bitlen k" using k by (simp add: bitlen_def floorlog_def)
  from bitlen_bounds [OF k]
  have lo: "2 ^ nat (bitlen k - 1) \<le> k" and hi: "k < 2 ^ nat (bitlen k)"
    by simp_all
  have "(2::real) ^ nat (bitlen k - 1) \<le> real_of_int k" using lo by simp
  moreover have "real_of_int k \<le> a" by (simp add: k_def)
  ultimately have low: "(2::real) ^ nat (bitlen k - 1) \<le> a" by (rule order_trans)
  have "k + 1 \<le> 2 ^ nat (bitlen k)" using hi by simp
  then have "real_of_int (k + 1) \<le> 2 ^ nat (bitlen k)"
    by (simp only: of_int_le_numeral_power_cancel_iff)
  moreover have "a < real_of_int (k + 1)" by (simp add: k_def)
  ultimately have high: "a < 2 ^ nat (bitlen k)" by (rule less_le_trans [rotated])
  show ?thesis using b1 low high unfolding e by (simp add: power_int_def)
next
  case False
  define k where "k = \<lfloor>1 / a\<rfloor>"
  define b where "b = bitlen k"
  have inv: "1 < 1 / a" using False assms by simp
  have k: "0 < k" using inv by (simp add: k_def)
  have b1: "1 \<le> b" using k by (simp add: b_def bitlen_def floorlog_def)
  from bitlen_bounds [OF k] have lo: "2 ^ nat (b - 1) \<le> k" and hi: "k < 2 ^ nat b"
    by (simp_all add: b_def)
  have "(2::real) ^ nat (b - 1) \<le> real_of_int k" using lo by simp
  moreover have "real_of_int k \<le> 1 / a" by (simp add: k_def)
  ultimately have lo': "2 ^ nat (b - 1) \<le> 1 / a" by (rule order_trans)
  have "k + 1 \<le> 2 ^ nat b" using hi by simp
  then have "real_of_int (k + 1) \<le> 2 ^ nat b"
    by (simp only: of_int_le_numeral_power_cancel_iff)
  moreover have "1 / a < real_of_int (k + 1)" by (simp add: k_def)
  ultimately have hi': "1 / a < 2 ^ nat b" by (rule less_le_trans [rotated])
  have up: "a * 2 ^ nat (b - 1) \<le> 1" using lo' assms by (simp add: field_simps)
  have down: "1 < a * 2 ^ nat b" using hi' assms by (simp add: field_simps)
  have nb: "nat b = Suc (nat (b - 1))" using b1 by simp
  have pm: "(2::real) powi (- b) = 1 / 2 ^ nat b"
    using b1 by (simp add: power_int_def field_simps)
  have pm1: "(2::real) powi (1 - b) = 1 / 2 ^ nat (b - 1)"
  proof (cases "b = 1")
    case True then show ?thesis by simp
  next
    case False
    then have "nat (- (1 - b)) = nat (b - 1)" "\<not> 0 \<le> 1 - b" using b1 by simp_all
    then show ?thesis by (simp add: power_int_def field_simps)
  qed
  have pm2: "(2::real) powi (2 - b) = 2 / 2 ^ nat (b - 1)"
  proof -
    have "(2::real) powi (2 - b) = 2 powi (1 + (1 - b))" by simp
    also have "\<dots> = 2 powi 1 * 2 powi (1 - b)" by (rule power_int_add) simp
    finally show ?thesis by (simp add: pm1)
  qed
  show ?thesis
  proof (cases "a * 2 ^ nat (b - 1) = 1")
    case True
    then have e: "exponent a = 1 - b"
      using False assms by (simp add: exponent_def k_def b_def Let_def)
    have a: "a = 1 / 2 ^ nat (b - 1)" using True by (simp add: field_simps)
    have "1 - b + 1 = 2 - b" by simp
    moreover have "1 / 2 ^ nat (b - 1) < (2::real) / 2 ^ nat (b - 1)"
      by (simp add: divide_strict_right_mono)
    ultimately show ?thesis unfolding e by (simp add: pm1 pm2 a [symmetric])
  next
    case neq: False
    then have e: "exponent a = - b"
      using False assms by (simp add: exponent_def k_def b_def Let_def)
    have "- b + 1 = 1 - b" by simp
    moreover have "1 / 2 ^ nat b < a" using down by (simp add: field_simps)
    moreover have "a < 1 / 2 ^ nat (b - 1)" using up neq by (simp add: field_simps)
    ultimately show ?thesis unfolding e by (simp add: pm pm1)
  qed
qed

lemma exponent_abs: "exponent (- x) = exponent x" "exponent \<bar>x\<bar> = exponent x"
  by (simp_all add: exponent_def)

lemma exponent_bounds:
  assumes "x \<noteq> 0"
  shows "2 powi (exponent x) \<le> \<bar>x\<bar>" and "\<bar>x\<bar> < 2 powi (exponent x + 1)"
  using exponent_bounds_pos [of "\<bar>x\<bar>"] assms by (simp_all add: exponent_abs)

lemma two_powi_less_imp:
  assumes "(2::real) powi m < 2 powi n"
  shows "m < n"
proof (rule ccontr)
  assume "\<not> m < n"
  then have "n \<le> m" by simp
  then have "(2::real) powi n \<le> 2 powi m" by (rule power_int_increasing) simp
  with assms show False by simp
qed

lemma two_powi_pos: "(0::real) < 2 powi e"
  by (rule zero_less_power_int) simp

lemma exponent_unique:
  assumes "2 powi e \<le> \<bar>x\<bar>" and "\<bar>x\<bar> < 2 powi (e + 1)"
  shows "exponent x = e"
proof -
  have x: "x \<noteq> 0"
  proof
    assume "x = 0"
    with assms(1) have "2 powi e \<le> (0::real)" by simp
    moreover have "(0::real) < 2 powi e" by (rule zero_less_power_int) simp
    ultimately show False by linarith
  qed
  note b = exponent_bounds [OF x]
  have "2 powi e < (2::real) powi (exponent x + 1)" using assms(1) b(2) by simp
  then have "e < exponent x + 1" by (rule two_powi_less_imp)
  moreover have "2 powi (exponent x) < (2::real) powi (e + 1)" using assms(2) b(1) by simp
  then have "exponent x < e + 1" by (rule two_powi_less_imp)
  ultimately show ?thesis by simp
qed

lemma round_half_even_of_int: "round_half_even (of_int k) = k"
  by (simp add: round_half_even_def)

lemma round_half_even_near:
  "real_of_int (round_half_even x) - 1 / 2 \<le> x" "x \<le> real_of_int (round_half_even x) + 1 / 2"
  unfolding round_half_even_def Let_def by (auto; linarith)+

lemma round_half_even_mono:
  assumes "x \<le> y"
  shows "round_half_even x \<le> round_half_even y"
proof (cases "\<lfloor>x\<rfloor> = \<lfloor>y\<rfloor>")
  case True
  then show ?thesis using assms unfolding round_half_even_def Let_def by auto
next
  case False
  with assms have "\<lfloor>x\<rfloor> < \<lfloor>y\<rfloor>" by (simp add: floor_mono order.strict_iff_order)
  then have "\<lfloor>x\<rfloor> + 1 \<le> \<lfloor>y\<rfloor>" by simp
  moreover have "round_half_even x \<le> \<lfloor>x\<rfloor> + 1" unfolding round_half_even_def Let_def by auto
  moreover have "\<lfloor>y\<rfloor> \<le> round_half_even y" unfolding round_half_even_def Let_def by auto
  ultimately show ?thesis by linarith
qed

lemma round_half_even_minus: "round_half_even (- x) = - round_half_even x"
proof (cases "x \<in> \<int>")
  case True
  then obtain k where "x = of_int k" by (auto elim: Ints_cases)
  then show ?thesis by (simp add: round_half_even_of_int flip: of_int_minus)
next
  case False
  then have "x \<noteq> real_of_int \<lfloor>x\<rfloor>" by (metis Ints_of_int)
  then have fl: "\<lfloor>- x\<rfloor> = - \<lfloor>x\<rfloor> - 1"
    by (simp add: floor_minus ceiling_altdef)
  show ?thesis
    unfolding round_half_even_def Let_def fl
    by (auto simp: algebra_simps) 
qed

lemma ulp_pos: "0 < ulp x"
  by (simp add: ulp_def two_powi_pos)

lemma ulp_minus: "ulp (- x) = ulp x"
  by (simp add: ulp_def exponent_abs)

lemma double_zero: "double 0 = 0"
  by (simp add: double_def)

lemma double_minus: "double (- x) = - double x"
  by (simp add: double_def ulp_minus round_half_even_minus)

lemma double_eval:
  assumes "2 powi e \<le> \<bar>x\<bar>" and "\<bar>x\<bar> < 2 powi (e + 1)"
  shows "double x = real_of_int (round_half_even (x / 2 powi (e - 52))) * 2 powi (e - 52)"
proof -
  have "(0::real) < 2 powi e" by (rule two_powi_pos)
  with assms(1) have "0 < \<bar>x\<bar>" by linarith
  then have "x \<noteq> 0" by simp
  then show ?thesis
    by (simp add: double_def ulp_def exponent_unique [OF assms])
qed

lemma two_powi_split:
  "(2::real) powi (e + 1) = 2 * 2 powi e" "(2::real) powi e = 2 powi 52 * 2 powi (e - 52)"
proof -
  show "(2::real) powi (e + 1) = 2 * 2 powi e" by (simp add: power_int_add)
  have "(2::real) powi e = 2 powi (52 + (e - 52))" by simp
  also have "\<dots> = 2 powi 52 * 2 powi (e - 52)" by (rule power_int_add) simp
  finally show "(2::real) powi e = 2 powi 52 * 2 powi (e - 52)" .
qed

lemma double_range_pos:
  assumes "0 < x"
  shows "2 powi (exponent x) \<le> double x" and "double x \<le> 2 powi (exponent x + 1)"
proof -
  define e where "e = exponent x"
  define u :: real where "u = 2 powi (e - 52)"
  have u: "0 < u" by (simp add: u_def two_powi_pos)
  have x: "x \<noteq> 0" using assms by simp
  from exponent_bounds [OF x] assms have lo: "2 powi e \<le> x" and hi: "x < 2 powi (e + 1)"
    by (simp_all add: e_def)
  have pe: "(2::real) powi e = 2 ^ 52 * u" using two_powi_split(2) [of e] by (simp add: u_def)
  have pe1: "(2::real) powi (e + 1) = 2 ^ 53 * u" using two_powi_split(1) [of e] pe by simp
  have d: "double x = real_of_int (round_half_even (x / u)) * u"
    using x by (simp add: double_def ulp_def e_def u_def)
  from lo have "2 ^ 52 * u \<le> x" by (simp only: pe)
  then have "real_of_int (2 ^ 52) \<le> x / u" using u by (simp add: field_simps)
  then have "round_half_even (real_of_int (2 ^ 52)) \<le> round_half_even (x / u)"
    by (rule round_half_even_mono)
  then have "(2::real) ^ 52 \<le> real_of_int (round_half_even (x / u))"
    by (simp only: round_half_even_of_int) simp
  then show "2 powi (exponent x) \<le> double x"
    using u unfolding d e_def [symmetric] pe by (simp add: mult_right_mono)
  from hi have "x < 2 ^ 53 * u" by (simp only: pe1)
  then have "x / u \<le> real_of_int (2 ^ 53)" using u by (simp add: field_simps)
  then have "round_half_even (x / u) \<le> round_half_even (real_of_int (2 ^ 53))"
    by (rule round_half_even_mono)
  then have "real_of_int (round_half_even (x / u)) \<le> (2::real) ^ 53"
    by (simp only: round_half_even_of_int) simp
  then show "double x \<le> 2 powi (exponent x + 1)"
    using u unfolding d e_def [symmetric] pe1 by (simp add: mult_right_mono)
qed

lemma double_pos: "0 < x \<Longrightarrow> 0 < double x"
  using double_range_pos(1) [of x] two_powi_pos [of "exponent x"] by linarith

lemma double_mono_pos:
  assumes "0 < x" and "x \<le> y"
  shows "double x \<le> double y"
proof -
  have y: "0 < y" using assms by simp
  have x0: "x \<noteq> 0" and y0: "y \<noteq> 0" using assms by simp_all
  have "2 powi (exponent x) \<le> x" using exponent_bounds(1) [OF x0] assms(1) by simp
  moreover have "y < 2 powi (exponent y + 1)" using exponent_bounds(2) [OF y0] y by simp
  ultimately have "(2::real) powi (exponent x) < 2 powi (exponent y + 1)" using assms(2) by simp
  then have le: "exponent x \<le> exponent y" using two_powi_less_imp by fastforce
  show ?thesis
  proof (cases "exponent x = exponent y")
    case True
    then have u: "ulp x = ulp y" by (simp add: ulp_def)
    have "x / ulp y \<le> y / ulp y" using assms(2) ulp_pos [of y] by (simp add: divide_right_mono)
    then have "round_half_even (x / ulp y) \<le> round_half_even (y / ulp y)"
      by (rule round_half_even_mono)
    then show ?thesis
      using x0 y0 ulp_pos [of y] by (simp add: double_def u mult_right_mono)
  next
    case False
    with le have "exponent x + 1 \<le> exponent y" by simp
    then have "(2::real) powi (exponent x + 1) \<le> 2 powi (exponent y)"
      by (rule power_int_increasing) simp
    with double_range_pos(2) [OF assms(1)] double_range_pos(1) [OF y] show ?thesis by simp
  qed
qed

lemma double_nonneg: "0 \<le> x \<Longrightarrow> 0 \<le> double x"
  using double_pos [of x] by (cases "x = 0") (simp_all add: double_zero)

lemma double_mono:
  assumes "x \<le> y"
  shows "double x \<le> double y"
proof -
  consider "0 < x" | "x \<le> 0" "0 \<le> y" | "y < 0" by linarith
  then show ?thesis
  proof cases
    case 1
    then show ?thesis using assms by (rule double_mono_pos)
  next
    case 2
    have "0 \<le> double (- x)" using 2(1) by (simp add: double_nonneg)
    then have "double x \<le> 0" by (simp add: double_minus)
    moreover have "0 \<le> double y" using 2(2) by (rule double_nonneg)
    ultimately show ?thesis by simp
  next
    case 3
    have "double (- y) \<le> double (- x)" using 3 assms by (intro double_mono_pos) simp_all
    then show ?thesis by (simp add: double_minus)
  qed
qed

lemma double_fixed:
  assumes "x / ulp x \<in> \<int>"
  shows "double x = x"
proof (cases "x = 0")
  case True then show ?thesis by (simp add: double_zero)
next
  case False
  from assms obtain k where k: "x / ulp x = real_of_int k" by (auto elim: Ints_cases)
  then have "x = real_of_int k * ulp x" using ulp_pos [of x] by (simp add: field_simps)
  then show ?thesis using False by (simp add: double_def k round_half_even_of_int)
qed

lemma double_of_int:
  assumes "\<bar>k\<bar> \<le> 2 ^ 53"
  shows "double (real_of_int k) = real_of_int k"
proof (cases "k = 0")
  case True then show ?thesis by (simp add: double_zero)
next
  case False
  define x where "x = real_of_int k"
  define e where "e = exponent x"
  have x: "x \<noteq> 0" using False by (simp add: x_def)
  note b = exponent_bounds [OF x]
  have ax: "\<bar>x\<bar> \<le> 2 ^ 53"
    using assms unfolding x_def by (metis of_int_abs of_int_le_numeral_power_cancel_iff)
  have "(2::real) powi e \<le> 2 powi 53" using b(1) ax by (simp add: e_def)
  then have "(2::real) powi e < 2 powi 54" by simp
  then have e: "e \<le> 53" using two_powi_less_imp by fastforce
  show ?thesis
  proof (cases "e = 53")
    case True
    then have "(2::real) ^ 53 \<le> \<bar>x\<bar>" using b(1) by (simp add: e_def)
    with ax have "\<bar>x\<bar> = 2 ^ 53" by simp
    then have "x = 2 ^ 53 \<or> x = - (2 ^ 53)" by linarith
    moreover have "ulp x = 2" using True by (simp add: ulp_def e_def)
    ultimately have "x / ulp x = real_of_int (2 ^ 52) \<or> x / ulp x = real_of_int (- (2 ^ 52))"
      by auto
    then have "x / ulp x \<in> \<int>" by (metis Ints_of_int)
    then show ?thesis unfolding x_def [symmetric] by (rule double_fixed)
  next
    case False
    with e have n: "0 \<le> 52 - e" by simp
    have "ulp x = 2 powi (- (52 - e))" by (simp add: ulp_def e_def)
    also have "\<dots> = 1 / 2 powi (52 - e)" by (rule power_int_minus_divide)
    also have "\<dots> = 1 / 2 ^ nat (52 - e)" using n by (simp add: power_int_def)
    finally have "x / ulp x = real_of_int (k * 2 ^ nat (52 - e))" by (simp add: x_def)
    then have "x / ulp x \<in> \<int>" by (metis Ints_of_int)
    then show ?thesis unfolding x_def [symmetric] by (rule double_fixed)
  qed
qed

lemma double_scale:
  "double (x * 2 powi j) = double x * 2 powi j"
proof (cases "x = 0")
  case True then show ?thesis by (simp add: double_zero)
next
  case False
  note b = exponent_bounds [OF False]
  have p: "(0::real) < 2 powi j" by (rule two_powi_pos)
  have lo: "2 powi (exponent x + j) \<le> \<bar>x * 2 powi j\<bar>"
    using b(1) p by (simp add: power_int_add abs_mult mult_right_mono)
  have "exponent x + j + 1 = (exponent x + 1) + j" by simp
  then have hi: "\<bar>x * 2 powi j\<bar> < 2 powi (exponent x + j + 1)"
    using b(2) p by (simp add: power_int_add abs_mult)
  have "(2::real) powi ((exponent x - 52) + j) = 2 powi (exponent x - 52) * 2 powi j"
    by (rule power_int_add) simp
  moreover have "exponent x + j - 52 = (exponent x - 52) + j" by simp
  ultimately have u: "(2::real) powi (exponent x + j - 52) = 2 powi (exponent x - 52) * 2 powi j"
    by (simp only:)
  show ?thesis
    unfolding double_eval [OF lo hi] u using False p
    by (simp add: double_def ulp_def)
qed

lemma double_dyadic:
  assumes "\<bar>k\<bar> \<le> 2 ^ 53"
  shows "double (real_of_int k * 2 powi j) = real_of_int k * 2 powi j"
  by (simp add: double_scale double_of_int [OF assms])

lemma double_one: "double 1 = 1"
  using double_of_int [of 1] by simp

lemma round_half_even_abs_le:
  assumes "\<bar>z\<bar> \<le> real_of_int k"
  shows "\<bar>round_half_even z\<bar> \<le> k"
proof -
  have "round_half_even z \<le> round_half_even (real_of_int k)"
    using assms by (intro round_half_even_mono) simp
  moreover have "round_half_even (real_of_int (- k)) \<le> round_half_even z"
    using assms by (intro round_half_even_mono) simp
  ultimately show ?thesis by (simp add: round_half_even_of_int round_half_even_minus)
qed

lemma double_idem: "double (double x) = double x"
proof (cases "x = 0")
  case True then show ?thesis by (simp add: double_zero)
next
  case False
  have "\<bar>x\<bar> < 2 powi (exponent x + 1)" by (rule exponent_bounds(2) [OF False])
  also have "\<dots> = 2 * (2 powi 52 * 2 powi (exponent x - 52))"
    using two_powi_split [of "exponent x"] by simp
  finally have "\<bar>x\<bar> < 2 ^ 53 * ulp x" by (simp add: ulp_def)
  then have "\<bar>x / ulp x\<bar> \<le> real_of_int (2 ^ 53)"
    using ulp_pos [of x] by (simp add: field_simps abs_mult)
  then have "\<bar>round_half_even (x / ulp x)\<bar> \<le> 2 ^ 53" by (rule round_half_even_abs_le)
  then have "double (real_of_int (round_half_even (x / ulp x)) * 2 powi (exponent x - 52))
      = real_of_int (round_half_even (x / ulp x)) * 2 powi (exponent x - 52)"
    by (rule double_dyadic)
  then show ?thesis using False by (simp add: double_def ulp_def)
qed

lemma double_zero_iff: "double x = 0 \<longleftrightarrow> x = 0"
proof
  assume d: "double x = 0"
  show "x = 0"
  proof (rule ccontr)
    assume "x \<noteq> 0"
    then consider "0 < x" | "0 < - x" by linarith
    then show False
    proof cases
      case 1 then show False using double_pos [of x] d by simp
    next
      case 2 then show False using double_pos [of "- x"] d by (simp add: double_minus)
    qed
  qed
qed (simp add: double_zero)

text \<open>
  The doubles that the examples meet. \<open>2 ^ 53 + 1\<close> is halfway between two
  doubles and goes to the even one, \<open>2 ^ 53\<close>.
\<close>

lemma double_ints:
  "double 1 = 1" "double 2 = 2" "double 3 = 3" "double 4 = 4" "double 5 = 5" "double 6 = 6"
  "double 7 = 7" "double 8 = 8" "double 10 = 10" "double 20 = 20" "double 25 = 25"
  "double 30 = 30" "double 50 = 50" "double 60 = 60" "double 70 = 70" "double 80 = 80"
  "double 100 = 100"
  using double_of_int [of 1] double_of_int [of 2] double_of_int [of 3] double_of_int [of 4]
    double_of_int [of 5] double_of_int [of 6] double_of_int [of 7] double_of_int [of 8]
    double_of_int [of 10] double_of_int [of 20] double_of_int [of 25] double_of_int [of 30]
    double_of_int [of 50] double_of_int [of 60] double_of_int [of 70] double_of_int [of 80]
    double_of_int [of 100]
  by simp_all

lemma double_fractions:
  "double (1 / 8) = 1 / 8" "double (1 / 4) = 1 / 4" "double (3 / 8) = 3 / 8"
  "double (1 / 2) = 1 / 2" "double (5 / 8) = 5 / 8" "double (3 / 4) = 3 / 4"
  "double (7 / 8) = 7 / 8" "double (5 / 4) = 5 / 4"
  using double_dyadic [of 1 "- 3"] double_dyadic [of 1 "- 2"] double_dyadic [of 3 "- 3"]
    double_dyadic [of 1 "- 1"] double_dyadic [of 5 "- 3"] double_dyadic [of 3 "- 2"]
    double_dyadic [of 7 "- 3"] double_dyadic [of 5 "- 2"]
  by (simp_all add: power_int_minus_divide)

lemma double_two_53: "double 9007199254740992 = 9007199254740992"
  using double_of_int [of "2 ^ 53"] by simp

lemma double_tie_at_two_53: "double 9007199254740993 = 9007199254740992"
proof -
  have "double 9007199254740993
      = real_of_int (round_half_even (9007199254740993 / 2 powi (53 - 52))) * 2 powi (53 - 52)"
    by (rule double_eval) simp_all
  also have "9007199254740993 / 2 powi (53 - 52) = (9007199254740993 / 2 :: real)" by simp
  also have "round_half_even (9007199254740993 / 2) = 4503599627370496"
    by (simp add: round_half_even_def Let_def)
  finally show ?thesis by simp
qed

lemma double_above_two_53: "double (36028797018963973 / 4) = 9007199254740994"
proof -
  have "double (36028797018963973 / 4)
      = real_of_int (round_half_even ((36028797018963973 / 4) / 2 powi (53 - 52)))
          * 2 powi (53 - 52)"
    by (rule double_eval) simp_all
  also have "(36028797018963973 / 4) / 2 powi (53 - 52) = (36028797018963973 / 8 :: real)"
    by simp
  also have "round_half_even (36028797018963973 / 8) = 4503599627370497"
    by (simp add: round_half_even_def Let_def)
  finally show ?thesis by simp
qed

lemma double_below_two_53: "double (36028797018963969 / 4) = 9007199254740992"
proof -
  have "double (36028797018963969 / 4)
      = real_of_int (round_half_even ((36028797018963969 / 4) / 2 powi (53 - 52)))
          * 2 powi (53 - 52)"
    by (rule double_eval) simp_all
  also have "(36028797018963969 / 4) / 2 powi (53 - 52) = (36028797018963969 / 8 :: real)"
    by simp
  also have "round_half_even (36028797018963969 / 8) = 4503599627370496"
    by (simp add: round_half_even_def Let_def)
  finally show ?thesis by simp
qed

section \<open>What the generator yields in float arithmetic\<close>

text \<open>
  The closed form of the exact level, with the rounded progress and the rounded value.
\<close>

lemma progress_float_step:
  "double (1 - double (double (double d - double (clock k - t0)) / double d))
     = progress_float clock t0 d k"
  by (simp add: progress_float_def)

lemma first_yields_float_Suspended:
  "first_yields_float clock m
       (Suspended start d f t0 y_span (progress_float clock t0 d n)) (Suc n) =
     (map (\<lambda>t. double (double (double (f t) * double y_span) + double start))
        (takeWhile (\<lambda>t. t < 1) (map (\<lambda>j. progress_float clock t0 d (n + j)) [0..<m])),
      if length (takeWhile (\<lambda>t. t < 1) (map (\<lambda>j. progress_float clock t0 d (n + j)) [0..<m])) = m
      then Pending else Exhausted,
      Suc n + length (takeWhile (\<lambda>t. t < 1)
        (map (\<lambda>j. progress_float clock t0 d (n + j)) [0..<m])))"
proof (induction m arbitrary: n)
  case 0
  show ?case by simp
next
  case (Suc m)
  show ?case
  proof (cases "progress_float clock t0 d n < 1")
    case False
    then show ?thesis
      by (simp add: while_loop_float_def map_upt_shift del: upt_Suc)
  next
    case True
    then show ?thesis
      using Suc.IH [of "Suc n"]
      by (simp add: while_loop_float_def Let_def progress_float_step map_upt_shift del: upt_Suc)
  qed
qed

lemma first_yields_float_Created:
  assumes "d \<noteq> 0"
  shows "first_yields_float clock (Suc m) (timed_range start stop d f) n =
     (map (\<lambda>t. double (double (double (f t) * double (stop - start)) + double start))
        (takeWhile (\<lambda>t. t < 1)
          (map (\<lambda>j. progress_float clock (clock n) d (Suc n + j)) [0..<Suc m])),
      if length (takeWhile (\<lambda>t. t < 1)
           (map (\<lambda>j. progress_float clock (clock n) d (Suc n + j)) [0..<Suc m])) = Suc m
      then Pending else Exhausted,
      Suc (Suc n) + length (takeWhile (\<lambda>t. t < 1)
           (map (\<lambda>j. progress_float clock (clock n) d (Suc n + j)) [0..<Suc m])))"
proof -
  have "first_yields_float clock (Suc m) (timed_range start stop d f) n =
        first_yields_float clock (Suc m)
          (Suspended start d f (clock n) (stop - start)
             (progress_float clock (clock n) d (Suc n)))
          (Suc (Suc n))"
    using assms by (simp add: timed_range_def Let_def progress_float_step double_zero_iff)
  then show ?thesis
    by (simp only: first_yields_float_Suspended)
qed

lemma first_yields_float_zero_duration:
  "first_yields_float clock (Suc m) (timed_range start stop 0 f) n =
     ([], Failed ZeroDivisionError, Suc (Suc n))"
  by (simp add: timed_range_def double_zero)

lemma first_yields_float_values:
  assumes "first_yields_float clock m (timed_range start stop d f) n = (ys, r, n')"
    and "j < length ys"
  shows "progress_float clock (clock n) d (Suc n + j) < 1
     \<and> ys ! j = double (double (double (f (progress_float clock (clock n) d (Suc n + j)))
                    * double (stop - start)) + double start)
     \<and> n' = Suc (Suc n) + length ys"
proof -
  from assms obtain m' where m: "m = Suc m'" by (cases m) auto
  have d: "d \<noteq> 0"
  proof
    assume "d = 0"
    with assms m show False
      by (simp add: first_yields_float_zero_duration del: first_yields_float.simps)
  qed
  let ?xs = "map (\<lambda>j. progress_float clock (clock n) d (Suc n + j)) [0..<Suc m']"
  let ?ts = "takeWhile (\<lambda>t. t < 1) ?xs"
  from assms(1)
  have ys: "ys = map (\<lambda>t. double (double (double (f t) * double (stop - start)) + double start)) ?ts"
    and n': "n' = Suc (Suc n) + length ?ts"
    unfolding m first_yields_float_Created [OF d] by simp_all
  from ys assms(2) have j: "j < length ?ts" by simp
  then have nth: "?ts ! j = ?xs ! j" by (rule takeWhile_nth)
  have "length ?ts \<le> length ?xs" by (rule length_takeWhile_le)
  with j have jm: "j < Suc m'" by simp
  have "?ts ! j \<in> set ?ts" using j by simp
  then have "?ts ! j < 1" by (metis set_takeWhileD)
  moreover have "?xs ! j = progress_float clock (clock n) d (Suc n + j)"
    using jm by (simp only: nth_map_upt) simp
  ultimately show ?thesis using nth ys j n' by simp
qed

text \<open>
  Runs on the steady clock in eight seconds, from 0 to 80 and from 80 to 0: every number
  in them is a double, so they are the runs of the exact level too.
\<close>

lemmas float_run_simps =
  timed_range_def while_loop_float_def default_easing_func_def Let_def double_zero double_zero_iff
  double_minus double_ints double_fractions

lemma float_steady_run:
  "first_yields_float steady_clock 3 (timed_range 0 80 8 default_easing_func) 0
     = ([10, 20, 30], Pending, 5)"
  by (simp add: numeral_3_eq_3 steady_clock_def float_run_simps)

lemma float_steady_run_down:
  "first_yields_float steady_clock 3 (timed_range 80 0 8 default_easing_func) 0
     = ([70, 60, 50], Pending, 5)"
  by (simp add: numeral_3_eq_3 steady_clock_def float_run_simps)

lemma float_steady_resume:
  "timed_range_next_float steady_clock (Suspended 0 8 default_easing_func 0 80 (1 / 4)) 3
     = (Yield 20, Suspended 0 8 default_easing_func 0 80 (3 / 8), 4)"
  by (simp add: steady_clock_def float_run_simps)

section \<open>The claims about \<^verbatim>\<open>timed_range\<close>\<close>

text \<open>
  Claim C1, as amended. For every \<open>start\<close>, \<open>stop\<close>, \<open>duration > 0\<close> and easing
  function, the \<open>j\<close>-th value produced (counted from 0) by a generator created when
  \<open>n\<close> samples had been taken is
  \<open>easing_func t * (stop - start) + start\<close> at
  \<open>t = 1 - (duration - elapsed) / duration\<close>, where \<open>elapsed\<close> is the time since the
  creation sample \<open>clock n\<close> at the sample \<open>clock (n + 1 + j)\<close>: the sample whose
  progress passed the loop's test, not the one taken just before the value is handed
  over. Each step does take one fresh sample: once \<open>length ys\<close> values have been
  produced, \<open>length ys + 2\<close> samples have been taken, the last of them after the last
  value was computed.
\<close>

theorem timed_range_value_sample:
  assumes "0 < duration"
    and "first_yields clock m (timed_range start stop duration easing_func) n = (ys, r, n')"
    and "j < length ys"
  shows "ys ! j =
      easing_func (1 - (duration - (clock (Suc n + j) - clock n)) / duration) * (stop - start) + start
    \<and> n' = Suc (Suc n) + length ys"
  using first_yields_values [OF assms(2,3)] by (simp add: progress_def)

text \<open>
  The theorem on the steady clock: the third of the values 10, 20, 30 comes from the sample
  \<open>clock 3\<close>, and five samples have been taken when it is handed over.
\<close>

theorem timed_range_value_sample_witness:
  "[10, 20, 30] ! 2 =
      default_easing_func (1 - (10 - (steady_clock (Suc 0 + 2) - steady_clock 0)) / 10) * (100 - 0) + 0
    \<and> (5::nat) = Suc (Suc 0) + length [10, 20, 30 :: real]"
proof -
  have d: "(0::real) < 10" by simp
  have j: "2 < length [10, 20, 30 :: real]" by simp
  show ?thesis by (rule timed_range_value_sample [OF d steady_run j])
qed

text \<open>
  Claim C1 as stated fails. From 0 to 100 in ten seconds on the steady clock, the first
  \<^verbatim>\<open>next\<close> takes the samples \<open>clock 0\<close>, \<open>clock 1\<close> and \<open>clock 2\<close> and
  yields 10, the value at the progress of \<open>clock 1\<close>; the freshest sample at that step
  is \<open>clock 2\<close>, for which the claimed expression is 20.
\<close>

theorem timed_range_freshest_sample_counterexample:
  "first_yields steady_clock 1 (timed_range 0 100 10 default_easing_func) 0 = ([10], Pending, 3)
   \<and> default_easing_func (1 - (10 - (steady_clock 2 - steady_clock 0)) / 10) * (100 - 0) + 0 = 20"
  by (simp add: timed_range_def while_loop_def steady_clock_def default_easing_func_def Let_def
      numeral_3_eq_3)

text \<open>
  Claim C2. For every \<open>start\<close>, \<open>stop\<close>, \<open>duration > 0\<close> and easing function, if
  some sample, the \<open>k\<close>-th after the creation sample, is at least \<open>duration\<close> later
  than the creation sample, then the generator returns: a consumer that is ready to call
  \<^verbatim>\<open>next\<close> at least \<open>k\<close> times finds it exhausted, having received fewer than
  \<open>k\<close> values. Nothing else is assumed about the clock.
\<close>

theorem timed_range_finite:
  assumes "0 < duration" and "clock n + duration \<le> clock (n + k)" and "k \<le> m"
  shows "\<exists>ys n'. first_yields clock m (timed_range start stop duration easing_func) n
            = (ys, Exhausted, n') \<and> length ys < k"
proof -
  have "k \<noteq> 0" using assms(1,2) by (cases k) auto
  then obtain k' where k: "k = Suc k'" by (cases k) auto
  with assms(3) obtain m' where m: "m = Suc m'" by (cases m) auto
  have d: "duration \<noteq> 0" using assms(1) by simp
  let ?xs = "map (\<lambda>j. progress clock (clock n) duration (Suc n + j)) [0..<Suc m']"
  let ?ts = "takeWhile (\<lambda>t. t < 1) ?xs"
  have k'm: "k' < Suc m'" using assms(3) k m by simp
  then have at: "?xs ! k' = progress clock (clock n) duration (n + k)"
    unfolding k by (simp only: nth_map_upt) simp
  have "\<not> progress clock (clock n) duration (n + k) < 1"
    using assms(1,2) by (simp add: progress_less_one)
  with at have "\<not> ?xs ! k' < 1" by simp
  moreover have "k' < length ?xs" using k'm by simp
  ultimately have len: "length ?ts \<le> k'" by (rule takeWhile_length_le [rotated])
  then have "length ?ts \<noteq> Suc m'" using k'm by simp
  then show ?thesis
    unfolding m first_yields_Created [OF d] using len k by simp
qed

text \<open>
  The theorem on the steady clock: ten seconds have passed at the tenth sample.
\<close>

theorem timed_range_finite_witness:
  "\<exists>ys n'. first_yields steady_clock 12 (timed_range 0 100 10 default_easing_func) 0
      = (ys, Exhausted, n') \<and> length ys < 10"
proof -
  have d: "(0::real) < 10" by simp
  have reach: "steady_clock 0 + 10 \<le> steady_clock (0 + 10)" by (simp add: steady_clock_def)
  have m: "(10::nat) \<le> 12" by simp
  show ?thesis by (rule timed_range_finite [OF d reach m])
qed

text \<open>
  The same holds in float arithmetic: a sample at least \<open>duration\<close> after the
  creation sample gives a rounded progress of at least 1.
\<close>

lemma timed_range_float_finite:
  assumes "0 < duration" and "clock n + duration \<le> clock (n + k)" and "k \<le> m"
  shows "\<exists>ys n'. first_yields_float clock m (timed_range start stop duration easing_func) n
            = (ys, Exhausted, n') \<and> length ys < k"
proof -
  have "k \<noteq> 0" using assms(1,2) by (cases k) auto
  then obtain k' where k: "k = Suc k'" by (cases k) auto
  with assms(3) obtain m' where m: "m = Suc m'" by (cases m) auto
  have d: "duration \<noteq> 0" using assms(1) by simp
  define D where "D = double duration"
  have D: "0 < D" unfolding D_def using assms(1) by (rule double_pos)
  let ?xs = "map (\<lambda>j. progress_float clock (clock n) duration (Suc n + j)) [0..<Suc m']"
  let ?ts = "takeWhile (\<lambda>t. t < 1) ?xs"
  have k'm: "k' < Suc m'" using assms(3) k m by simp
  then have at: "?xs ! k' = progress_float clock (clock n) duration (n + k)"
    unfolding k by (simp only: nth_map_upt) simp
  have "double duration \<le> double (clock (n + k) - clock n)"
    using assms(2) by (intro double_mono) simp
  then have "D - double (clock (n + k) - clock n) \<le> 0" by (simp add: D_def)
  then have "double (D - double (clock (n + k) - clock n)) \<le> double 0" by (rule double_mono)
  then have "double (D - double (clock (n + k) - clock n)) / D \<le> 0"
    using D by (simp add: double_zero divide_le_0_iff)
  then have "double (double (D - double (clock (n + k) - clock n)) / D) \<le> double 0"
    by (rule double_mono)
  then have "1 \<le> 1 - double (double (D - double (clock (n + k) - clock n)) / D)"
    by (simp add: double_zero)
  then have "double 1 \<le> double (1 - double (double (D - double (clock (n + k) - clock n)) / D))"
    by (rule double_mono)
  then have "\<not> progress_float clock (clock n) duration (n + k) < 1"
    by (simp add: progress_float_def D_def double_one)
  with at have "\<not> ?xs ! k' < 1" by simp
  moreover have "k' < length ?xs" using k'm by simp
  ultimately have len: "length ?ts \<le> k'" by (rule takeWhile_length_le [rotated])
  then have "length ?ts \<noteq> Suc m'" using k'm by simp
  then show ?thesis
    unfolding m first_yields_float_Created [OF d] using len k by simp
qed

text \<open>
  Claim C6, as amended. Provided the clock never goes back (\<open>mono clock\<close>) and
  \<open>start\<close> and \<open>stop\<close> are integers of magnitude at most \<open>2 ^ 52\<close>, so that
  they and their difference are doubles, for every \<open>duration > 0\<close> the values yielded
  with the identity easing function, computed in float arithmetic, are non-decreasing
  when \<open>start \<le> stop\<close>, non-increasing when \<open>stop < start\<close>, and lie between
  \<open>start\<close> and \<open>stop\<close> inclusive.
\<close>

theorem timed_range_float_identity_monotone:
  assumes clock: "mono clock" and d: "0 < duration"
    and start: "\<bar>start\<bar> \<le> 2 ^ 52" and stop: "\<bar>stop\<bar> \<le> 2 ^ 52"
    and run: "first_yields_float clock m
               (timed_range (real_of_int start) (real_of_int stop) duration default_easing_func) n
             = (ys, r, n')"
  shows "(start \<le> stop \<longrightarrow>
            sorted ys \<and> (\<forall>y\<in>set ys. real_of_int start \<le> y \<and> y \<le> real_of_int stop))
       \<and> (stop < start \<longrightarrow>
            sorted (rev ys) \<and> (\<forall>y\<in>set ys. real_of_int stop \<le> y \<and> y \<le> real_of_int start))"
proof (cases m)
  case 0
  with run show ?thesis by simp
next
  case (Suc m')
  define D where "D = double duration"
  define a where "a = real_of_int start"
  define b where "b = real_of_int stop"
  define S where "S = b - a"
  have d0: "duration \<noteq> 0" using d by simp
  have D: "0 < D" unfolding D_def using d by (rule double_pos)
  have DD: "double D = D" unfolding D_def by (rule double_idem)
  have fa: "double a = a" unfolding a_def using start by (intro double_of_int) simp
  have fb: "double b = b" unfolding b_def using stop by (intro double_of_int) simp
  have "\<bar>stop - start\<bar> \<le> 2 ^ 53" using start stop by simp
  then have "double (real_of_int (stop - start)) = real_of_int (stop - start)"
    by (rule double_of_int)
  then have fS: "double S = S" by (simp add: S_def a_def b_def)
  let ?p = "\<lambda>j. progress_float clock (clock n) duration (Suc n + j)"
  let ?xs = "map ?p [0..<Suc m']"
  let ?ts = "takeWhile (\<lambda>t. t < 1) ?xs"
  let ?h = "\<lambda>t. double (double (double t * S) + a)"
  from run have "first_yields_float clock (Suc m')
      (timed_range a b duration default_easing_func) n = (ys, r, n')"
    by (simp only: Suc a_def b_def)
  then have "ys = map (\<lambda>t. double (double (double (default_easing_func t) * double (b - a))
      + double a)) ?ts"
    unfolding first_yields_float_Created [OF d0] by (simp del: upt_Suc)
  then have ys: "ys = map ?h ?ts"
    by (simp only: default_easing_func_def fS [unfolded S_def] fa S_def)
  have p_eq: "?p j = double (1 - double (double (D - double (clock (Suc n + j) - clock n)) / D))"
    for j by (simp add: progress_float_def D_def)
  have p_mono: "?p i \<le> ?p j" if "i \<le> j" for i j
  proof -
    have "clock (Suc n + i) \<le> clock (Suc n + j)"
      using clock that by (simp add: mono_def)
    then have "double (clock (Suc n + i) - clock n) \<le> double (clock (Suc n + j) - clock n)"
      by (intro double_mono) simp
    then have "double (D - double (clock (Suc n + j) - clock n))
        \<le> double (D - double (clock (Suc n + i) - clock n))"
      by (intro double_mono) simp
    then have "double (D - double (clock (Suc n + j) - clock n)) / D
        \<le> double (D - double (clock (Suc n + i) - clock n)) / D"
      using D by (simp add: divide_right_mono)
    then have "double (double (D - double (clock (Suc n + j) - clock n)) / D)
        \<le> double (double (D - double (clock (Suc n + i) - clock n)) / D)"
      by (rule double_mono)
    then show ?thesis unfolding p_eq by (intro double_mono) simp
  qed
  have p_nonneg: "0 \<le> ?p j" for j
  proof -
    have "clock n \<le> clock (Suc n + j)" using clock by (simp add: mono_def)
    then have "0 \<le> double (clock (Suc n + j) - clock n)" by (intro double_nonneg) simp
    then have "double (D - double (clock (Suc n + j) - clock n)) \<le> double D"
      by (intro double_mono) simp
    then have "double (D - double (clock (Suc n + j) - clock n)) / D \<le> 1"
      using D by (simp add: DD)
    then have "double (double (D - double (clock (Suc n + j) - clock n)) / D) \<le> double 1"
      by (rule double_mono)
    then have "0 \<le> 1 - double (double (D - double (clock (Suc n + j) - clock n)) / D)"
      by (simp add: double_one)
    then show ?thesis unfolding p_eq by (rule double_nonneg)
  qed
  have "sorted [0..<Suc m']" by (rule sorted_upt)
  then have "sorted ?xs" using p_mono by (rule sorted_map_mono)
  then have sorted_ts: "sorted ?ts" by (rule sorted_takeWhile)
  have range: "0 \<le> double t \<and> double t \<le> 1" if "t \<in> set ?ts" for t
  proof -
    from that have "t < 1" by (metis set_takeWhileD)
    then have "double t \<le> double 1" by (intro double_mono) simp
    moreover from that have "t \<in> set ?xs" by (metis set_takeWhileD)
    then obtain j where "t = ?p j" by auto
    then have "0 \<le> t" using p_nonneg by simp
    then have "0 \<le> double t" by (rule double_nonneg)
    ultimately show ?thesis by (simp add: double_one)
  qed
  show ?thesis
  proof (intro conjI impI)
    assume "start \<le> stop"
    then have S: "0 \<le> S" by (simp add: S_def a_def b_def)
    have "?h x \<le> ?h y" if "x \<le> y" for x y :: real
    proof -
      have "double x \<le> double y" using that by (rule double_mono)
      then have "double x * S \<le> double y * S" using S by (rule mult_right_mono)
      then have "double (double x * S) \<le> double (double y * S)" by (rule double_mono)
      then show ?thesis by (intro double_mono) simp
    qed
    with sorted_ts show "sorted ys" unfolding ys by (rule sorted_map_mono)
    show "\<forall>y\<in>set ys. real_of_int start \<le> y \<and> y \<le> real_of_int stop"
    proof
      fix y assume "y \<in> set ys"
      then obtain t where t: "t \<in> set ?ts" and y: "y = ?h t" unfolding ys by auto
      from range [OF t] have t0: "0 \<le> double t" and t1: "double t \<le> 1" by simp_all
      have "0 \<le> double t * S" using t0 S by (rule mult_nonneg_nonneg)
      then have lo: "0 \<le> double (double t * S)" by (rule double_nonneg)
      have "double t * S \<le> 1 * S" using t1 S by (rule mult_right_mono)
      then have "double (double t * S) \<le> double S" by (intro double_mono) simp
      then have hi: "double (double t * S) \<le> S" by (simp add: fS)
      have "double a \<le> ?h t" using lo by (intro double_mono) simp
      moreover have "?h t \<le> double b" using hi by (intro double_mono) (simp add: S_def)
      ultimately show "real_of_int start \<le> y \<and> y \<le> real_of_int stop"
        unfolding y fa fb by (simp add: a_def b_def)
    qed
  next
    assume "stop < start"
    then have S: "S \<le> 0" by (simp add: S_def a_def b_def)
    have "?h y \<le> ?h x" if "x \<le> y" for x y :: real
    proof -
      have "double x \<le> double y" using that by (rule double_mono)
      then have "double y * S \<le> double x * S" using S by (rule mult_right_mono_neg)
      then have "double (double y * S) \<le> double (double x * S)" by (rule double_mono)
      then show ?thesis by (intro double_mono) simp
    qed
    with sorted_ts show "sorted (rev ys)" unfolding ys by (rule sorted_rev_map_antimono)
    show "\<forall>y\<in>set ys. real_of_int stop \<le> y \<and> y \<le> real_of_int start"
    proof
      fix y assume "y \<in> set ys"
      then obtain t where t: "t \<in> set ?ts" and y: "y = ?h t" unfolding ys by auto
      from range [OF t] have t0: "0 \<le> double t" and t1: "double t \<le> 1" by simp_all
      have "double t * S \<le> 0" using t0 S by (rule mult_nonneg_nonpos)
      then have "double (double t * S) \<le> double 0" by (rule double_mono)
      then have hi: "double (double t * S) \<le> 0" by (simp add: double_zero)
      have "1 * S \<le> double t * S" using t1 S by (rule mult_right_mono_neg)
      then have "double S \<le> double (double t * S)" by (intro double_mono) simp
      then have lo: "S \<le> double (double t * S)" by (simp add: fS)
      have "?h t \<le> double a" using hi by (intro double_mono) simp
      moreover have "double b \<le> ?h t" using lo by (intro double_mono) (simp add: S_def)
      ultimately show "real_of_int stop \<le> y \<and> y \<le> real_of_int start"
        unfolding y fa fb by (simp add: a_def b_def)
    qed
  qed
qed

text \<open>
  The theorem on the steady clock, from 0 to 80 and from 80 to 0 in eight seconds.
\<close>

theorem timed_range_float_identity_monotone_witness:
  "sorted [10, 20, 30 :: real] \<and> (0::real) \<le> 30 \<and> (30::real) \<le> 80
   \<and> sorted (rev [70, 60, 50 :: real]) \<and> (0::real) \<le> 50 \<and> (50::real) \<le> 80"
proof -
  have clock: "mono steady_clock" by (simp add: mono_def steady_clock_def)
  have d: "(0::real) < 8" by simp
  have small: "\<bar>0::int\<bar> \<le> 2 ^ 52" "\<bar>80::int\<bar> \<le> 2 ^ 52" by simp_all
  have up: "first_yields_float steady_clock 3
      (timed_range (real_of_int 0) (real_of_int 80) 8 default_easing_func) 0
      = ([10, 20, 30], Pending, 5)"
    using float_steady_run by simp
  have down: "first_yields_float steady_clock 3
      (timed_range (real_of_int 80) (real_of_int 0) 8 default_easing_func) 0
      = ([70, 60, 50], Pending, 5)"
    using float_steady_run_down by simp
  have le: "(0::int) \<le> 80" and less: "(0::int) < 80" by simp_all
  from timed_range_float_identity_monotone [OF clock d small(1) small(2) up] le
  have "sorted [10, 20, 30 :: real]"
    and "\<forall>y\<in>set [10, 20, 30 :: real]. real_of_int 0 \<le> y \<and> y \<le> real_of_int 80"
    by blast+
  moreover from timed_range_float_identity_monotone [OF clock d small(2) small(1) down] less
  have "sorted (rev [70, 60, 50 :: real])"
    and "\<forall>y\<in>set [70, 60, 50 :: real]. real_of_int 0 \<le> y \<and> y \<le> real_of_int 80"
    by blast+
  ultimately show ?thesis by simp
qed

text \<open>
  Claim C6 as stated fails: \<^verbatim>\<open>datetime.now()\<close> is the wall clock, which can be
  set back. On a clock whose samples are 0, 4 and then 2, the values from 0 to 100 in
  eight seconds are 50 and then 25.
\<close>

theorem timed_range_float_backward_clock_counterexample:
  "first_yields_float backward_clock 2 (timed_range 0 100 8 default_easing_func) 0
     = ([50, 25], Pending, 4)
   \<and> \<not> sorted [50, 25 :: real]"
  by (simp add: numeral_2_eq_2 backward_clock_def float_run_simps)

text \<open>
  It also fails on a clock that advances, for an integer \<open>start\<close> that is not a
  double: from \<open>2 ^ 53 + 1\<close> to \<open>2 ^ 53 + 3\<close> the first value is \<open>2 ^ 53\<close>,
  below \<open>start\<close>.
\<close>

lemma timed_range_float_below_start:
  "first_yields_float steady_clock 1
     (timed_range 9007199254740993 9007199254740995 8 default_easing_func) 0
     = ([9007199254740992], Pending, 3)"
  by (simp add: steady_clock_def float_run_simps double_tie_at_two_53 double_below_two_53)

text \<open>
  Claim C9. With \<open>duration = 0\<close> the first \<^verbatim>\<open>next\<close> raises
  \<^verbatim>\<open>ZeroDivisionError\<close> at the first progress computation, after the two samples
  before it, and no value is yielded; with \<open>duration > 0\<close> the generator never raises.
\<close>

theorem timed_range_zero_duration:
  "timed_range_next clock (timed_range start stop 0 easing_func) n
      = (Raise ZeroDivisionError, Finished, Suc (Suc n))
   \<and> first_yields clock (Suc m) (timed_range start stop 0 easing_func) n
      = ([], Failed ZeroDivisionError, Suc (Suc n))
   \<and> (0 < duration \<longrightarrow>
        fst (snd (first_yields clock m' (timed_range start stop duration easing_func) n'))
          \<noteq> Failed e)"
proof (intro conjI impI)
  show "timed_range_next clock (timed_range start stop 0 easing_func) n
      = (Raise ZeroDivisionError, Finished, Suc (Suc n))"
    by (simp add: timed_range_def)
  show "first_yields clock (Suc m) (timed_range start stop 0 easing_func) n
      = ([], Failed ZeroDivisionError, Suc (Suc n))"
    by (rule first_yields_zero_duration)
  assume "0 < duration"
  then show "fst (snd (first_yields clock m' (timed_range start stop duration easing_func) n'))
      \<noteq> Failed e"
    using first_yields_status [of clock m' start stop duration easing_func n' e] by auto
qed

text \<open>
  The theorem at a duration of ten seconds.
\<close>

theorem timed_range_zero_duration_witness:
  "fst (snd (first_yields steady_clock 3 (timed_range 0 100 10 default_easing_func) 0))
      \<noteq> Failed ZeroDivisionError"
proof -
  have d: "(0::real) < 10" by simp
  from timed_range_zero_duration [of steady_clock 0 100 default_easing_func 0 0 10 3 0 ZeroDivisionError]
  show ?thesis using d by blast
qed

text \<open>
  Claim C10, as amended. Every value yielded is computed from the progress that passed
  the test \<open>t_scaled < 1\<close>: the \<open>j\<close>-th value from the sample
  \<open>clock (n + 1 + j)\<close>, at a progress below 1. In a step from a suspended frame the
  value comes from the \<open>t_scaled\<close> of the frame, and the sample taken in the step, just
  before the \<^verbatim>\<open>yield\<close>, goes into the frame for the next step. The value is the
  rounded result of \<^verbatim>\<open>easing_func(t_scaled) * y_span + start\<close>, and nothing is
  said of its distance from \<open>stop\<close>.
\<close>

theorem timed_range_float_value_before_one:
  assumes "first_yields_float clock m (timed_range start stop duration easing_func) n = (ys, r, n')"
  shows "(\<forall>j<length ys.
            progress_float clock (clock n) duration (Suc n + j) < 1
          \<and> ys ! j = double (double (double (easing_func
                         (progress_float clock (clock n) duration (Suc n + j)))
                       * double (stop - start)) + double start))
       \<and> (\<forall>t0 y_span t_scaled k i g' k'.
            timed_range_next_float clock
                (Suspended start duration easing_func t0 y_span t_scaled) k
              = (Yield i, g', k') \<longrightarrow>
            t_scaled < 1
          \<and> i = double (double (double (easing_func t_scaled) * double y_span) + double start)
          \<and> k' = Suc k
          \<and> g' = Suspended start duration easing_func t0 y_span
                    (progress_float clock t0 duration k))"
proof (intro conjI allI impI)
  fix j assume j: "j < length ys"
  note v = first_yields_float_values [OF assms j]
  from v show "progress_float clock (clock n) duration (Suc n + j) < 1" by simp
  from v show "ys ! j = double (double (double (easing_func
                         (progress_float clock (clock n) duration (Suc n + j)))
                       * double (stop - start)) + double start)"
    by simp
next
  fix t0 y_span t_scaled k i g' k'
  assume step: "timed_range_next_float clock
      (Suspended start duration easing_func t0 y_span t_scaled) k = (Yield i, g', k')"
  then show "t_scaled < 1" by (simp add: while_loop_float_def split: if_splits)
  from step
  show "i = double (double (double (easing_func t_scaled) * double y_span) + double start)"
    by (simp add: while_loop_float_def Let_def split: if_splits)
  from step show "k' = Suc k" by (simp add: while_loop_float_def Let_def split: if_splits)
  from step show "g' = Suspended start duration easing_func t0 y_span
      (progress_float clock t0 duration k)"
    by (auto simp: while_loop_float_def Let_def progress_float_def split: if_splits)
qed

text \<open>
  The theorem on the steady clock, at the third value and at the step that yields 20.
\<close>

theorem timed_range_float_value_before_one_witness:
  "progress_float steady_clock (steady_clock 0) 8 (Suc 0 + 2) < 1
   \<and> [10, 20, 30] ! 2
        = double (double (double (default_easing_func
              (progress_float steady_clock (steady_clock 0) 8 (Suc 0 + 2))) * double (80 - 0))
            + double 0)
   \<and> (1 / 4 :: real) < 1
   \<and> (20::real) = double (double (double (default_easing_func (1 / 4)) * double 80) + double 0)
   \<and> Suspended 0 8 default_easing_func 0 80 (3 / 8)
        = Suspended 0 8 default_easing_func 0 80 (progress_float steady_clock 0 8 3)"
proof -
  have j: "2 < length [10, 20, 30 :: real]" by simp
  note inst = timed_range_float_value_before_one [OF float_steady_run]
  from inst j have "progress_float steady_clock (steady_clock 0) 8 (Suc 0 + 2) < 1
   \<and> [10, 20, 30] ! 2
        = double (double (double (default_easing_func
              (progress_float steady_clock (steady_clock 0) 8 (Suc 0 + 2))) * double (80 - 0))
            + double 0)"
    by blast
  moreover from inst float_steady_resume have "(1 / 4 :: real) < 1
     \<and> (20::real) = double (double (double (default_easing_func (1 / 4)) * double 80) + double 0)
     \<and> Suspended 0 8 default_easing_func 0 80 (3 / 8)
        = Suspended 0 8 default_easing_func 0 80 (progress_float steady_clock 0 8 3)"
    by blast
  ultimately show ?thesis by blast
qed

text \<open>
  Claim C10 as stated fails in its last part: with the identity easing function and
  \<open>stop \<noteq> start\<close> the value \<open>stop\<close> is yielded at a progress below 1. From
  \<open>2 ^ 53\<close> to \<open>2 ^ 53 + 2\<close> in eight seconds, the sample taken after five seconds
  gives the progress \<open>5 / 8\<close> and the value \<open>2 ^ 53 + 5 / 4\<close>, which rounds to
  \<open>2 ^ 53 + 2\<close>.
\<close>

theorem timed_range_float_yields_stop_counterexample:
  "first_yields_float clock_every_five 1
     (timed_range 9007199254740992 9007199254740994 8 default_easing_func) 0
     = ([9007199254740994], Pending, 3)
   \<and> progress_float clock_every_five (clock_every_five 0) 8 1 = 5 / 8"
  by (simp add: progress_float_def clock_every_five_def float_run_simps double_two_53
      double_above_two_53)

section \<open>The claims about the device handle\<close>

lemma py_int_of_int: "py_int (real_of_int v) = v"
  by (simp add: py_int_def)

lemma py_int_towards_zero:
  "\<bar>real_of_int (py_int v)\<bar> \<le> \<bar>v\<bar> \<and> \<bar>v - real_of_int (py_int v)\<bar> < 1"
  unfolding py_int_def by (cases "0 \<le> v") (simp_all, linarith+)

text \<open>
  Claim C3: after every operation of an open handle the device's value lies in
  \<open>[0, max]\<close>. The code does not keep it so. The setter tests
  \<^verbatim>\<open>new_brightness > self.max\<close> only, although its message reads
  \<^verbatim>\<open>Brightness must be in range 0 to {}\<close>: on a handle with maximum 100, assigning
  \<open>- 5\<close> succeeds and the device holds \<open>- 5\<close>.
\<close>

theorem brightness_setter_negative_stored:
  "brightness_setter handle50 (- 5)
     = Inr \<lparr>max_brightness = 100, brightness_file = - 5, written = [- 5]\<rparr>"
  by (simp add: brightness_setter_def handle50_def py_int_def)

text \<open>
  The same through \<^verbatim>\<open>animate\<close>, as \<^verbatim>\<open>dec 80 -d 8 -e linear\<close> at
  brightness 50 calls it: the values written fall below zero.
\<close>

lemma animate_below_zero:
  "animate steady_clock 0 handle50 (- 30) 8 default_easing_func
     = Some (Returned, \<lparr>max_brightness = 100, brightness_file = - 20,
              written = [40, 30, 20, 10, 0, - 10, - 20]\<rparr>)"
  by (simp add: animate_def timed_range_def for_loop.simps while_loop_def steady_clock_def
      default_easing_func_def Let_def brightness_def handle50_def brightness_setter_def py_int_def)

text \<open>
  The text of an integer, read back: \<^verbatim>\<open>int(str(v) + w)\<close> is \<open>v\<close> when
  \<open>w\<close> is whitespace.
\<close>

lemma digit_cases:
  assumes "d < (10::nat)"
  obtains "d = 0" | "d = 1" | "d = 2" | "d = 3" | "d = 4" | "d = 5" | "d = 6" | "d = 7"
    | "d = 8" | "d = 9"
proof -
  from assms have "d = 0 \<or> d = 1 \<or> d = 2 \<or> d = 3 \<or> d = 4 \<or> d = 5 \<or> d = 6 \<or> d = 7
      \<or> d = 8 \<or> d = 9"
    by arith
  with that show thesis by blast
qed

lemma digit_char_props:
  assumes "d < 10"
  shows "is_digit (digit_char d)" and "digit_value (digit_char d) = d"
    and "digit_char d \<noteq> CHR ''_''" and "digit_char d \<noteq> CHR ''-''"
    and "digit_char d \<noteq> CHR ''+''" and "\<not> is_space (digit_char d)"
  using assms
  by (cases d rule: digit_cases;
      simp add: digit_char_def is_digit_def digit_value_def is_space_def)+

lemma digits_not_Nil: "digits n \<noteq> []"
  by (subst digits.simps) simp

lemma digits_all: "c \<in> set (digits n) \<Longrightarrow> \<exists>d<10. c = digit_char d"
proof (induction n arbitrary: c rule: digits.induct)
  case (1 n)
  show ?case
  proof (cases "n < 10")
    case True
    with "1.prems" show ?thesis by (subst (asm) digits.simps) auto
  next
    case False
    from "1.prems" have "c \<in> set (digits (n div 10)) \<or> c = digit_char (n mod 10)"
      using False by (subst (asm) digits.simps) auto
    then show ?thesis
    proof
      assume "c \<in> set (digits (n div 10))"
      with False show ?thesis by (rule "1.IH")
    next
      assume "c = digit_char (n mod 10)"
      moreover have "n mod 10 < 10" by simp
      ultimately show ?thesis by blast
    qed
  qed
qed

lemma digits_is_digit: "c \<in> set (digits n) \<Longrightarrow> is_digit c"
  using digits_all digit_char_props(1) by blast

lemma digits_no_underscore: "filter (\<lambda>c. c \<noteq> CHR ''_'') (digits n) = digits n"
proof (rule filter_True, rule ballI)
  fix c assume "c \<in> set (digits n)"
  then obtain d where "d < 10" and "c = digit_char d" using digits_all by blast
  then show "c \<noteq> CHR ''_''" by (simp add: digit_char_props(3))
qed

lemma digits_foldl: "foldl (\<lambda>a c. 10 * a + digit_value c) 0 (digits n) = n"
proof (induction n rule: digits.induct)
  case (1 n)
  show ?case
  proof (cases "n < 10")
    case True
    then show ?thesis by (subst digits.simps) (simp add: digit_char_props(2))
  next
    case False
    have "n mod 10 < 10" by simp
    then have "digit_value (digit_char (n mod 10)) = n mod 10" by (rule digit_char_props(2))
    with False "1.IH" show ?thesis by (subst digits.simps) simp
  qed
qed

lemma digits_value_digits: "digits_value (digits n) = n"
  by (simp add: digits_value_def digits_no_underscore digits_foldl)

lemma digits_ok_all:
  assumes "xs \<noteq> []" and "\<forall>c\<in>set xs. is_digit c"
  shows "digits_ok xs"
  using assms
proof (induction xs rule: digits_ok.induct)
  case (3 c d cs)
  have "d \<noteq> CHR ''_''" using "3.prems"(2) by (auto simp: is_digit_def)
  with 3 show ?case by simp
qed simp_all

lemma digits_ok_digits: "digits_ok (digits n)"
  using digits_not_Nil digits_is_digit by (intro digits_ok_all) blast+

lemma hd_digits: "is_digit (hd (digits n))" and last_digits: "is_digit (last (digits n))"
  using digits_not_Nil [of n] digits_is_digit [of _ n] by simp_all

lemma is_digit_not_space: "is_digit c \<Longrightarrow> \<not> is_space c"
  by (auto simp: is_digit_def is_space_def Let_def)

lemma strip_append_spaces:
  assumes "s \<noteq> []" and "\<not> is_space (hd s)" and "\<not> is_space (last s)"
    and "\<forall>c\<in>set w. is_space c"
  shows "strip (s @ w) = s"
proof -
  from assms(1,2) have front: "dropWhile is_space (s @ w) = s @ w"
    by (cases s) simp_all
  have "dropWhile is_space (rev w @ rev s) = dropWhile is_space (rev s)"
    using assms(4) by (intro dropWhile_append2) simp
  also have "\<dots> = rev s"
    using assms(1,3) by (cases "rev s") (simp_all add: last_rev [symmetric] hd_rev)
  finally show ?thesis by (simp add: strip_def front)
qed

lemma int_of_str_str:
  assumes "\<forall>c\<in>set w. is_space c"
  shows "int_of_str (str v @ w) = Inr v"
proof (cases "v < 0")
  case False
  have "strip (digits (nat v) @ w) = digits (nat v)"
    using digits_not_Nil hd_digits last_digits assms
    by (intro strip_append_spaces) (simp_all add: is_digit_not_space)
  moreover obtain c cs where cs: "digits (nat v) = c # cs"
    using digits_not_Nil [of "nat v"] by (cases "digits (nat v)") auto
  moreover have "is_digit c" using hd_digits [of "nat v"] cs by simp
  then have "c \<noteq> CHR ''-''" "c \<noteq> CHR ''+''" by (auto simp: is_digit_def)
  ultimately show ?thesis
    using False digits_ok_digits [of "nat v"] digits_value_digits [of "nat v"]
    by (simp add: int_of_str_def str_def Let_def)
next
  case True
  let ?s = "CHR ''-'' # digits (nat (- v))"
  have "last ?s = last (digits (nat (- v)))" using digits_not_Nil by simp
  then have "\<not> is_space (last ?s)" using last_digits by (simp add: is_digit_not_space)
  moreover have "\<not> is_space (hd ?s)" by (simp add: is_space_def)
  ultimately have "strip (?s @ w) = ?s" using assms by (intro strip_append_spaces) simp_all
  then show ?thesis
    using True digits_ok_digits [of "nat (- v)"] digits_value_digits [of "nat (- v)"]
    by (simp add: int_of_str_def str_def Let_def)
qed

text \<open>
  On a finite number the setter of the second level decides as the setter of the first
  and writes the text of the same integer.
\<close>

lemma brightness_setter_levels:
  assumes "cached_max file = max_brightness self"
  shows "brightness_setter_file file (Finite v)
     = (case brightness_setter self v of
          Inl e \<Rightarrow> Inl e
        | Inr self' \<Rightarrow>
            Inr (file\<lparr>file_text :=
                   write_at_start (str (brightness_file self')) (file_text file)\<rparr>))"
  using assms
  by (simp add: brightness_setter_file_def brightness_setter_def greater_than_def
      int_of_number_def)

text \<open>
  Claim C4, as amended. For every finite number \<open>v\<close> (below Python's limit on the
  digits of an integer turned into text) the setter raises if and only if \<open>v > max\<close>,
  and then it raises \<^verbatim>\<open>ValueError\<close>, the program's range error; a finite negative
  \<open>v\<close> is not rejected. Otherwise it writes, over the start of the file, the text of
  \<^verbatim>\<open>int(v)\<close>, which is \<open>v\<close> truncated towards zero: the integer that is no
  larger than \<open>v\<close> in absolute value and less than 1 away from it. Of the floats that
  are not finite, \<^verbatim>\<open>nan\<close> and \<^verbatim>\<open>inf\<close> are rejected with
  \<^verbatim>\<open>ValueError\<close> and \<^verbatim>\<open>-inf\<close> with \<^verbatim>\<open>OverflowError\<close>.
\<close>

theorem brightness_setter_file_range:
  assumes "\<bar>v\<bar> < 10 ^ 4300"
  shows "((\<exists>e. brightness_setter_file self (Finite v) = Inl e)
            = (real_of_int (cached_max self) < v))
   \<and> (real_of_int (cached_max self) < v \<longrightarrow>
        brightness_setter_file self (Finite v) = Inl ValueError)
   \<and> (v \<le> real_of_int (cached_max self) \<longrightarrow>
        brightness_setter_file self (Finite v)
          = Inr (self\<lparr>file_text := write_at_start (str (py_int v)) (file_text self)\<rparr>)
      \<and> \<bar>real_of_int (py_int v)\<bar> \<le> \<bar>v\<bar> \<and> \<bar>v - real_of_int (py_int v)\<bar> < 1)
   \<and> brightness_setter_file self NaN = Inl ValueError
   \<and> brightness_setter_file self PosInf = Inl ValueError
   \<and> brightness_setter_file self NegInf = Inl OverflowError"
  using py_int_towards_zero [of v]
  by (simp add: brightness_setter_file_def greater_than_def int_of_number_def)

text \<open>
  The theorem on a file that holds 50 and a newline, with maximum 100: \<open>- 5 / 2\<close> is
  written as \<open>- 2\<close>, and \<open>201 / 2\<close> is rejected although it truncates to 100.
\<close>

theorem brightness_setter_file_range_witness:
  "brightness_setter_file file50 (Finite (- (5 / 2)))
     = Inr \<lparr>cached_max = 100, file_text = [CHR ''-'', CHR ''2'', CHR 0x0A]\<rparr>
   \<and> brightness_setter_file file50 (Finite (201 / 2)) = Inl ValueError"
proof -
  have ten: "(10::real) ^ 3 \<le> 10 ^ 4300" by (rule power_increasing) simp_all
  have "\<bar>- (5 / 2) :: real\<bar> < 10 ^ 3" by simp
  then have small: "\<bar>- (5 / 2) :: real\<bar> < 10 ^ 4300" using ten by (rule less_le_trans)
  have "\<bar>201 / 2 :: real\<bar> < 10 ^ 3" by simp
  then have small': "\<bar>201 / 2 :: real\<bar> < 10 ^ 4300" using ten by (rule less_le_trans)
  have low: "(- (5 / 2) :: real) \<le> real_of_int (cached_max file50)"
    by (simp add: file50_def)
  have high: "real_of_int (cached_max file50) < (201 / 2 :: real)"
    by (simp add: file50_def)
  have trunc: "py_int (- (5 / 2)) = - 2" by (simp add: py_int_def)
  from brightness_setter_file_range [OF small, of file50] low
  have "brightness_setter_file file50 (Finite (- (5 / 2)))
     = Inr (file50\<lparr>file_text := write_at_start (str (py_int (- (5 / 2)))) (file_text file50)\<rparr>)"
    by blast
  moreover from brightness_setter_file_range [OF small', of file50] high
  have "brightness_setter_file file50 (Finite (201 / 2)) = Inl ValueError" by blast
  ultimately show ?thesis
    by (simp add: trunc file50_def write_at_start_def str_def digits.simps digit_char_def)
qed

text \<open>
  Claim C4 as stated fails for the floats that are not finite. \<^verbatim>\<open>nan\<close> is not
  greater than \<open>max\<close>, yet assigning it raises \<^verbatim>\<open>ValueError\<close>, from
  \<^verbatim>\<open>int\<close>; \<^verbatim>\<open>-inf\<close> is negative and is rejected, with
  \<^verbatim>\<open>OverflowError\<close>.
\<close>

theorem brightness_setter_file_nan_counterexample:
  "brightness_setter_file file50 NaN = Inl ValueError
   \<and> \<not> greater_than NaN (cached_max file50)
   \<and> brightness_setter_file file50 NegInf = Inl OverflowError"
  by (simp add: brightness_setter_file_def greater_than_def int_of_number_def)





text \<open>
  Claim C7, as amended. For every integer \<open>v \<le> max\<close> (below Python's limit on the
  digits of an integer turned into text), assigning \<open>v\<close> succeeds, and the getter then
  returns \<open>v\<close> provided the text of \<open>v\<close> covers what the file held: what follows
  its \<open>length (str v)\<close> first characters is whitespace only.
\<close>

theorem brightness_file_round_trip:
  assumes "v \<le> cached_max self" and "\<bar>v\<bar> < 10 ^ 4300"
    and "\<forall>c\<in>set (drop (length (str v)) (file_text self)). is_space c"
  shows "\<exists>self'. brightness_setter_file self (Finite (real_of_int v)) = Inr self'
           \<and> brightness_file_value self' = Inr v"
proof -
  have "py_int (real_of_int v) = v" by (simp add: py_int_def)
  then have "brightness_setter_file self (Finite (real_of_int v))
      = Inr (self\<lparr>file_text := str v @ drop (length (str v)) (file_text self)\<rparr>)"
    using assms(1)
    by (simp add: brightness_setter_file_def greater_than_def int_of_number_def write_at_start_def)
  moreover have "int_of_str (str v @ drop (length (str v)) (file_text self)) = Inr v"
    using assms(3) by (rule int_of_str_str)
  ultimately show ?thesis by (simp add: brightness_file_value_def)
qed

text \<open>
  The theorem at \<open>v = 75\<close> on a file that holds 50 and a newline.
\<close>

theorem brightness_file_round_trip_witness:
  "\<exists>self'. brightness_setter_file file50 (Finite (real_of_int 75)) = Inr self'
     \<and> brightness_file_value self' = Inr 75"
proof -
  have valid: "(75::int) \<le> cached_max file50" by (simp add: file50_def)
  have ten: "(10::int) ^ 2 \<le> 10 ^ 4300" by (rule power_increasing) simp_all
  have "\<bar>75::int\<bar> < 10 ^ 2" by simp
  then have small: "\<bar>75::int\<bar> < 10 ^ 4300" using ten by (rule less_le_trans)
  have rest: "\<forall>c\<in>set (drop (length (str 75)) (file_text file50)). is_space c"
    by (simp add: file50_def str_def digits.simps digit_char_def is_space_def)
  show ?thesis by (rule brightness_file_round_trip [OF valid small rest])
qed

text \<open>
  Claim C7 as stated fails on a file whose text is longer than that of \<open>v\<close>: the
  setter does not truncate the file. On a file that holds 50 and a newline, assigning 5
  writes \<^verbatim>\<open>5\<close> over the first character and the getter returns 50.
\<close>

theorem brightness_file_shorter_text_counterexample:
  "brightness_setter_file file50 (Finite (real_of_int 5))
     = Inr \<lparr>cached_max = 100, file_text = [CHR ''5'', CHR ''0'', CHR 0x0A]\<rparr>
   \<and> brightness_file_value \<lparr>cached_max = 100, file_text = [CHR ''5'', CHR ''0'', CHR 0x0A]\<rparr>
        = Inr 50"
  by (simp add: brightness_setter_file_def greater_than_def int_of_number_def py_int_def
      file50_def write_at_start_def str_def digits.simps digit_char_def
      brightness_file_value_def int_of_str_def strip_def is_space_def is_digit_def
      digits_value_def digit_value_def Let_def)

section \<open>The claim about \<^verbatim>\<open>main\<close>\<close>

text \<open>
  Claim C8: for \<^verbatim>\<open>set\<close>, \<^verbatim>\<open>inc\<close> and \<^verbatim>\<open>dec\<close>, an absent operand is a
  usage error with exit code 1 and the device untouched, and with an integer operand
  no usage error occurs. The code does not do the second for the operand 0: the test for
  a missing operand is \<^verbatim>\<open>not args.operand\<close>, which is also true of 0, so
  \<^verbatim>\<open>set 0\<close> reports that the action requires an operand and exits with code 1,
  the device untouched.
\<close>

theorem main_operand_zero:
  "main pytweening easeOutCubic clock ''set'' (Some 0) (1 / 4) ''easeOutCubic'' control
     = Some \<lparr>exit = SystemExit 1, stdout = [],
             stderr = [RequiresOperand ''set'', Usage], device = control\<rparr>"
  by (simp add: main_def not_operand_def)

text \<open>
  The rest of the claim holds: without an operand the three actions report the usage
  error and exit with code 1, the device untouched; with an operand other than 0 they
  report none.
\<close>

lemma main_operand_missing:
  assumes "action \<in> {''set'', ''inc'', ''dec''}"
  shows "main pytweening easeOutCubic clock action None duration easing_function control
     = Some \<lparr>exit = SystemExit 1, stdout = [],
             stderr = [RequiresOperand action, Usage], device = control\<rparr>"
  using assms by (auto simp: main_def not_operand_def)

lemma main_operand_nonzero:
  assumes "action \<in> {''set'', ''inc'', ''dec''}" and "v \<noteq> 0"
    and "main pytweening easeOutCubic clock action (Some v) duration easing_function control
      = Some p"
  shows "exit p \<noteq> SystemExit 1 \<and> stderr p = []"
  using assms
  by (auto simp: main_def not_operand_def Let_def
      split: option.splits prod.splits outcome.splits if_splits)

end
